theory Spec2Isabelle
  imports Complex_Main "HOL-Library.AList" "HOL-Library.Product_Lexorder"
begin

section \<open>Common types\<close>

text \<open>
  A contact is identified by its JID, a string. Instants are the millisecond counts that
  \<open>Date.now()\<close> returns; every function that reads the clock takes that reading as its
  argument \<open>now\<close>. A JavaScript \<open>Map\<close> iterates in insertion order, \<open>set\<close> on a present
  key keeps the key's position and \<open>set\<close> on an absent key appends: that is
  \<open>AList.update\<close> on an association list, with \<open>map_of\<close> for \<open>get\<close> and
  \<open>AList.delete\<close> for \<open>delete\<close>.
\<close>

type_synonym jid = string

section \<open>Offline assistant (src/services/offline-assistant.js)\<close>

type_synonym activity = "(jid \<times> int) list"

definition COOLDOWN_MS :: int where
  "COOLDOWN_MS = 3 * 60 * 1000"

definition TYPING_PAUSE_MS :: int where
  "TYPING_PAUSE_MS = 60 * 1000"

definition recordOwnerReply :: "int \<Rightarrow> jid \<Rightarrow> activity \<Rightarrow> activity" where
  "recordOwnerReply now j ownerActivity = AList.update j now ownerActivity"

text \<open>\<open>(ownerActivity.get(jid) || 0) + COOLDOWN_MS\<close>: an absent entry counts as anchor 0.\<close>

definition currentExpiry :: "activity \<Rightarrow> jid \<Rightarrow> int" where
  "currentExpiry ownerActivity j =
     (case map_of ownerActivity j of None \<Rightarrow> 0 | Some a \<Rightarrow> a) + COOLDOWN_MS"

definition recordTyping :: "int \<Rightarrow> jid \<Rightarrow> activity \<Rightarrow> activity" where
  "recordTyping now j ownerActivity =
     (let newExpiry = now + TYPING_PAUSE_MS in
      if newExpiry > currentExpiry ownerActivity j
      then AList.update j (now + TYPING_PAUSE_MS - COOLDOWN_MS) ownerActivity
      else ownerActivity)"

text \<open>
  \<open>isOwnerActive\<close> returns its answer and the map it leaves behind: an expired entry is
  deleted. \<open>!lastReply\<close> holds for an absent entry and for the anchor 0.
\<close>

definition isOwnerActive :: "int \<Rightarrow> jid \<Rightarrow> activity \<Rightarrow> bool \<times> activity" where
  "isOwnerActive now j ownerActivity =
     (case map_of ownerActivity j of
        None \<Rightarrow> (False, ownerActivity)
      | Some lastReply \<Rightarrow>
          if lastReply = 0 then (False, ownerActivity)
          else if now - lastReply < COOLDOWN_MS then (True, ownerActivity)
          else (False, AList.delete j ownerActivity))"

definition forceResume :: "jid \<Rightarrow> activity \<Rightarrow> activity" where
  "forceResume j ownerActivity = AList.delete j ownerActivity"

section \<open>Configuration (src/config/index.js, the safety block)\<close>

text \<open>
  The loader coerces every field of the safety block to a positive integer
  (\<open>z.coerce.number().int().positive()\<close>); the fields are JavaScript numbers, here \<open>int\<close>,
  and a theorem that needs positivity says so.
\<close>

record safety_config =
  rateLimitMax :: int
  rateLimitWindowMs :: int
  loopDetectThreshold :: int
  oldMessageThresholdSec :: int
  haltDurationMs :: int

section \<open>Rate limiter (src/safety/rate-limiter.js)\<close>

type_synonym windows = "jid \<rightharpoonup> int list"

text \<open>
  The result object of \<open>check\<close>. \<open>retryAfterMs\<close> is absent when the check allows; when it
  rejects it is \<open>timestamps[0] + windowMs - now\<close>, which is not a number (here \<open>None\<close>)
  if the window is empty.
\<close>

record rate_result =
  allowed :: bool
  remaining :: int
  retryAfterMs :: "int option"

text \<open>\<open>while (timestamps.length > 0 && timestamps[0] < cutoff) timestamps.shift()\<close>\<close>

fun prune :: "int \<Rightarrow> int list \<Rightarrow> int list" where
  "prune cutoff [] = []"
| "prune cutoff (t # ts) = (if t < cutoff then prune cutoff ts else t # ts)"

text \<open>\<open>windows.get(jid)\<close>, with the empty array that both functions put in for an absent entry.\<close>

definition timestampsOf :: "windows \<Rightarrow> jid \<Rightarrow> int list" where
  "timestampsOf ws j = (case ws j of None \<Rightarrow> [] | Some ts \<Rightarrow> ts)"

definition rateLimiter_check ::
  "safety_config \<Rightarrow> int \<Rightarrow> jid \<Rightarrow> windows \<Rightarrow> rate_result \<times> windows" where
  "rateLimiter_check cfg now j ws =
     (let windowMs = rateLimitWindowMs cfg;
          mx = rateLimitMax cfg;
          timestamps0 = timestampsOf ws j;
          cutoff = now - windowMs;
          timestamps = prune cutoff timestamps0;
          ws' = ws(j \<mapsto> timestamps)
      in if int (length timestamps) \<ge> mx
         then (\<lparr>allowed = False, remaining = 0,
                retryAfterMs = (case timestamps of [] \<Rightarrow> None
                                | oldestInWindow # _ \<Rightarrow> Some (oldestInWindow + windowMs - now))\<rparr>,
               ws')
         else (\<lparr>allowed = True, remaining = mx - int (length timestamps),
                retryAfterMs = None\<rparr>, ws'))"

definition rateLimiter_record :: "int \<Rightarrow> jid \<Rightarrow> windows \<Rightarrow> windows" where
  "rateLimiter_record now j ws = ws(j \<mapsto> timestampsOf ws j @ [now])"

definition rateLimiter_reset :: "jid \<Rightarrow> windows \<Rightarrow> windows" where
  "rateLimiter_reset j ws = ws(j := None)"

section \<open>Loop detector (src/safety/loop-detector.js)\<close>

text \<open>
  Strings are byte lists. \<open>toLowerCase\<close> and \<open>trim\<close> are modelled on ASCII: the letters
  A to Z are lowered, and white space is space, tab, line feed, vertical tab, form feed
  and carriage return (the ASCII part of what the white-space class of regular
  expressions and \<open>trim\<close> match).
\<close>

definition toLowerCase :: "string \<Rightarrow> string" where
  "toLowerCase s =
     map (\<lambda>c. let n = (of_char c :: nat) in if 65 \<le> n \<and> n \<le> 90 then char_of (n + 32) else c) s"

definition is_ws :: "char \<Rightarrow> bool" where
  "is_ws c = ((of_char c :: nat) \<in> {32, 9, 10, 11, 12, 13})"

definition trim :: "string \<Rightarrow> string" where
  "trim s = rev (dropWhile is_ws (rev (dropWhile is_ws s)))"

text \<open>
  \<open>split\<close> on runs of white space: the pieces between maximal runs of white space; a leading or trailing
  run leaves an empty piece, and the empty string splits into one empty piece.
\<close>

function split_ws_from :: "string \<Rightarrow> string \<Rightarrow> string list" where
  "split_ws_from cur [] = [cur]"
| "split_ws_from cur (c # cs) =
     (if is_ws c then cur # split_ws_from [] (dropWhile is_ws cs)
      else split_ws_from (cur @ [c]) cs)"
  by pat_completeness auto
termination
  by (relation "measure (\<lambda>(cur, s). length s)")
     (auto simp: length_dropWhile_le less_Suc_eq_le)

definition split_ws :: "string \<Rightarrow> string list" where
  "split_ws s = split_ws_from [] s"

definition WINDOW_SIZE :: nat where
  "WINDOW_SIZE = 6"

text \<open>
  \<open>intersection / union >= SIMILARITY_THRESHOLD\<close> is a comparison of doubles in the source.
  The quotient of two counts is correctly rounded and rounding is monotone, so for the
  word counts of a chat message the comparison agrees with the exact one on rationals,
  which is what the model computes.
\<close>

definition SIMILARITY_THRESHOLD :: rat where
  "SIMILARITY_THRESHOLD = 8 / 10"

text \<open>
  The body of the comparison loop for one later message: \<open>first\<close> is the word set of the
  first message (a \<open>Set\<close>, here a list without duplicates in insertion order).
\<close>

definition similar :: "string list \<Rightarrow> string \<Rightarrow> bool" where
  "similar first message =
     (let words = remdups (split_ws message);
          intersection = length (filter (\<lambda>w. w \<in> set words) first);
          union = length (remdups (first @ words))
      in union > 0 \<and> (of_nat intersection :: rat) / of_nat union \<ge> SIMILARITY_THRESHOLD)"

fun countSimilar :: "string list \<Rightarrow> string list \<Rightarrow> nat \<Rightarrow> nat" where
  "countSimilar first [] similarCount = similarCount"
| "countSimilar first (m # ms) similarCount =
     countSimilar first ms (if similar first m then similarCount + 1 else similarCount)"

definition hasRepetition :: "string list \<Rightarrow> bool" where
  "hasRepetition msgs =
     (if length msgs < 2 then False
      else if length (remdups msgs) = 1 then True
      else let first = remdups (split_ws (hd msgs));
               similarCount = countSimilar first (tl msgs) 0
           in similarCount \<ge> length msgs - 1)"

text \<open>
  Two notions used to state the properties of the detector. \<open>jaccard\<close> is the Jaccard
  similarity of the word sets of two messages. \<open>hasRepetition_allButOne\<close> is the repetition
  test as the specification words it: one distinct message, or all but one of the compared
  (later) messages similar to the first.
\<close>

definition jaccard :: "string \<Rightarrow> string \<Rightarrow> rat" where
  "jaccard a b =
     of_nat (card (set (split_ws a) \<inter> set (split_ws b)))
       / of_nat (card (set (split_ws a) \<union> set (split_ws b)))"

definition hasRepetition_allButOne :: "string list \<Rightarrow> bool" where
  "hasRepetition_allButOne msgs =
     (length (remdups msgs) = 1
      \<or> length (filter (\<lambda>m. jaccard (hd msgs) m \<ge> 8 / 10) (tl msgs)) \<ge> length (tl msgs) - 1)"

record loop_entry =
  messages :: "string list"
  haltedUntil :: int

type_synonym loop_state = "jid \<rightharpoonup> loop_entry"

record loop_result =
  loopDetected :: bool
  isHalted :: bool
  haltRemainingMs :: "int option"

text \<open>
  \<open>xs.slice(start)\<close> for an integer \<open>start\<close>: a negative start counts from the end, and
  both are clamped to the array.
\<close>

definition slice_from :: "int \<Rightarrow> 'a list \<Rightarrow> 'a list" where
  "slice_from start xs =
     (if start < 0 then drop (nat (max (int (length xs) + start) 0)) xs
      else drop (nat start) xs)"

datatype js_error = JsError (errName: string) (errStatus: "int option")

definition TypeError :: js_error where
  "TypeError = JsError ''TypeError'' None"

text \<open>
  \<open>check(jid, text)\<close>. The text of a media message can be undefined (\<open>None\<close>); then
  \<open>text.toLowerCase()\<close> throws a TypeError, after the entry was created and an expired
  halt was reset. The function returns the thrown error or the result, and the state it
  leaves.
\<close>

definition loopDetector_check ::
  "safety_config \<Rightarrow> int \<Rightarrow> jid \<Rightarrow> string option \<Rightarrow> loop_state
     \<Rightarrow> (js_error + loop_result) \<times> loop_state" where
  "loopDetector_check cfg now j text st =
     (let entry0 = (case st j of None \<Rightarrow> \<lparr>messages = [], haltedUntil = 0\<rparr> | Some e \<Rightarrow> e)
      in if haltedUntil entry0 > now
         then (Inr \<lparr>loopDetected = True, isHalted = True,
                    haltRemainingMs = Some (haltedUntil entry0 - now)\<rparr>,
               st(j \<mapsto> entry0))
         else
           let entry1 = (if haltedUntil entry0 > 0 \<and> haltedUntil entry0 \<le> now
                         then \<lparr>messages = [], haltedUntil = 0\<rparr> else entry0)
           in case text of
                None \<Rightarrow> (Inl TypeError, st(j \<mapsto> entry1))
              | Some t \<Rightarrow>
                 let pushed = messages entry1 @ [trim (toLowerCase t)];
                     msgs = (if length pushed > WINDOW_SIZE then tl pushed else pushed);
                     entry2 = entry1\<lparr>messages := msgs\<rparr>;
                     threshold = loopDetectThreshold cfg
                 in if int (length msgs) \<ge> threshold
                       \<and> hasRepetition (slice_from (- threshold) msgs)
                    then (Inr \<lparr>loopDetected = True, isHalted = True,
                               haltRemainingMs = Some (haltDurationMs cfg)\<rparr>,
                          st(j \<mapsto> entry2\<lparr>haltedUntil := now + haltDurationMs cfg\<rparr>))
                    else (Inr \<lparr>loopDetected = False, isHalted = False,
                               haltRemainingMs = None\<rparr>,
                          st(j \<mapsto> entry2)))"

definition clearHalt :: "jid \<Rightarrow> loop_state \<Rightarrow> loop_state" where
  "clearHalt j st = st(j := None)"

definition loopDetector_isHalted :: "int \<Rightarrow> jid \<Rightarrow> loop_state \<Rightarrow> bool" where
  "loopDetector_isHalted now j st =
     (case st j of None \<Rightarrow> False | Some entry \<Rightarrow> haltedUntil entry > now)"

section \<open>Session cache (src/ai/chat-session.js)\<close>

text \<open>
  The cache is a \<open>Map\<close> from JID to entry, in insertion order. A turn of the history is
  opaque to the cache and is kept as a string. The system prompt builder
  (src/ai/prompt-builder.js, a function of the contact profile and the persona) is a
  parameter \<open>buildSystemPrompt\<close>.
\<close>

record session_entry =
  history :: "string list"
  lastAccess :: int
  turnCount :: nat
  systemInstruction :: string

type_synonym sessions = "(jid \<times> session_entry) list"

definition MAX_SESSIONS :: nat where
  "MAX_SESSIONS = 200"

definition SESSION_TTL_MS :: int where
  "SESSION_TTL_MS = 30 * 60 * 1000"

text \<open>
  The scan of \<open>_evictOldest\<close>: the pair is (\<open>oldestJid\<close>, \<open>oldestTime\<close>), with \<open>None\<close> for
  the initial \<open>null\<close> and \<open>Infinity\<close>.
\<close>

fun oldestScan :: "sessions \<Rightarrow> jid option \<times> int option \<Rightarrow> jid option \<times> int option" where
  "oldestScan [] acc = acc"
| "oldestScan ((j, entry) # rest) (oldestJid, oldestTime) =
     oldestScan rest
       (if (case oldestTime of None \<Rightarrow> True | Some t \<Rightarrow> lastAccess entry < t)
        then (Some j, Some (lastAccess entry))
        else (oldestJid, oldestTime))"

text \<open>\<open>if (oldestJid)\<close> is false for \<open>null\<close> and for the empty string.\<close>

definition evictOldest :: "sessions \<Rightarrow> sessions" where
  "evictOldest ss =
     (case fst (oldestScan ss (None, None)) of
        None \<Rightarrow> ss
      | Some oldestJid \<Rightarrow> if oldestJid = [] then ss else AList.delete oldestJid ss)"

definition getEntry ::
  "('p \<Rightarrow> string) \<Rightarrow> int \<Rightarrow> jid \<Rightarrow> 'p \<Rightarrow> sessions \<Rightarrow> session_entry \<times> sessions" where
  "getEntry buildSystemPrompt now j contactProfile ss =
     (case map_of ss j of
        Some entry \<Rightarrow>
          (entry\<lparr>lastAccess := now\<rparr>, AList.update j (entry\<lparr>lastAccess := now\<rparr>) ss)
      | None \<Rightarrow>
          let entry = \<lparr>history = [], lastAccess = now, turnCount = 0,
                       systemInstruction = buildSystemPrompt contactProfile\<rparr>;
              ss1 = AList.update j entry ss;
              ss2 = (if length ss1 > MAX_SESSIONS then evictOldest ss1 else ss1)
          in (entry, ss2))"

text \<open>
  One attempt of \<open>reply\<close> with the next key of the pool: the AI answers with a text and
  the updated history, or the attempt throws; the flag says whether the message of the
  thrown error contains \<open>All Gemini keys\<close>.
\<close>

datatype attempt = Answered string "string list" | Threw js_error bool

fun tryKeys ::
  "nat \<Rightarrow> nat \<Rightarrow> (nat \<Rightarrow> attempt) \<Rightarrow> js_error option \<Rightarrow> js_error + string \<times> string list" where
  "tryKeys 0 i attempts lastErr =
     Inl (case lastErr of Some e \<Rightarrow> e | None \<Rightarrow> JsError ''Error'' None)"
| "tryKeys (Suc n) i attempts lastErr =
     (case attempts i of
        Answered txt hist \<Rightarrow> Inr (txt, hist)
      | Threw err allExhausted \<Rightarrow>
          if errName err = ''QuotaError''
          then (if allExhausted then Inl err else tryKeys n (i + 1) attempts (Some err))
          else Inl err)"

text \<open>
  \<open>reply\<close>: the entry is fetched or created first; on an answer the entry object is
  updated, which the cache sees when it still holds that object. \<open>poolSize\<close> is
  \<open>config.gemini.apiKeys?.length || 1\<close>, \<open>now2\<close> the clock after the answer.
\<close>

definition reply ::
  "('p \<Rightarrow> string) \<Rightarrow> nat \<Rightarrow> (nat \<Rightarrow> attempt) \<Rightarrow> int \<Rightarrow> int \<Rightarrow> jid \<Rightarrow> 'p \<Rightarrow> sessions
     \<Rightarrow> (js_error + string) \<times> sessions" where
  "reply buildSystemPrompt nKeys attempts now now2 j contactProfile ss =
     (let (entry, ss1) = getEntry buildSystemPrompt now j contactProfile ss;
          poolSize = (if nKeys = 0 then 1 else nKeys)
      in case tryKeys poolSize 0 attempts None of
           Inl err \<Rightarrow> (Inl err, ss1)
         | Inr (txt, hist) \<Rightarrow>
             let entry' = entry\<lparr>history := hist, turnCount := turnCount entry + 1,
                                lastAccess := now2\<rparr>
             in (Inr txt, if map_of ss1 j = Some entry then AList.update j entry' ss1 else ss1))"

text \<open>
  The bounded caches, used to state the properties: one entry per JID, at most
  \<open>MAX_SESSIONS\<close> entries, and no entry under the empty JID.
\<close>

definition cacheBounded :: "sessions \<Rightarrow> bool" where
  "cacheBounded ss =
     (distinct (map fst ss) \<and> length ss \<le> MAX_SESSIONS \<and> [] \<notin> fst ` set ss)"

definition session_reset :: "jid \<Rightarrow> sessions \<Rightarrow> sessions" where
  "session_reset j ss = AList.delete j ss"

definition evictStale :: "int \<Rightarrow> sessions \<Rightarrow> sessions" where
  "evictStale now ss = filter (\<lambda>(j, entry). \<not> now - lastAccess entry > SESSION_TTL_MS) ss"

definition session_resetAll :: "sessions \<Rightarrow> sessions" where
  "session_resetAll ss = []"

section \<open>Follow-ups (src/database/repositories/follow-ups.repo.js and the follow-up tracker)\<close>

text \<open>
  The \<open>follow_ups\<close> table is a list of rows; \<open>id\<close> is its primary key. \<open>due_at\<close> and the
  clock of \<open>datetime('now')\<close> are instants in seconds; a NULL \<open>due_at\<close> is \<open>None\<close> and compares
  as not overdue.
\<close>

datatype fu_status = Pending | Reminded | Resolved | Expired

record follow_up =
  fu_id :: nat
  fu_jid :: jid
  description :: string
  status :: fu_status
  priority :: int
  due_at :: "int option"
  reminded_count :: int

record reminder =
  r_jid :: jid
  r_description :: string
  r_due_at :: "int option"
  r_display_name :: "string option"
  r_priority :: int

text \<open>
  \<open>create\<close>: the INSERT with its defaults (\<open>status || 'pending'\<close>, \<open>priority || 1\<close>,
  \<open>reminded_count\<close> defaulting to 0). The key is AUTOINCREMENT: one more than the largest
  key (rows are never deleted from this table).
\<close>

definition nextId :: "follow_up list \<Rightarrow> nat" where
  "nextId tbl = Suc (foldr max (map fu_id tbl) 0)"

definition fu_create ::
  "jid \<Rightarrow> string \<Rightarrow> fu_status option \<Rightarrow> int option \<Rightarrow> int option \<Rightarrow> follow_up list
     \<Rightarrow> nat \<times> follow_up list" where
  "fu_create j descr st prio due tbl =
     (nextId tbl,
      tbl @ [\<lparr>fu_id = nextId tbl, fu_jid = j, description = descr,
               status = (case st of None \<Rightarrow> Pending | Some s \<Rightarrow> s),
               priority = (case prio of None \<Rightarrow> 1 | Some p \<Rightarrow> if p = 0 then 1 else p),
               due_at = due, reminded_count = 0\<rparr>])"

definition overdue :: "int \<Rightarrow> follow_up \<Rightarrow> bool" where
  "overdue now f =
     ((status f = Pending \<or> status f = Reminded)
      \<and> (case due_at f of None \<Rightarrow> False | Some d \<Rightarrow> d \<le> now))"

text \<open>\<open>ORDER BY f.priority DESC, f.due_at ASC\<close>, as a stable sort of the selected rows.\<close>

definition listOverdue :: "int \<Rightarrow> follow_up list \<Rightarrow> follow_up list" where
  "listOverdue now tbl =
     sort_key (\<lambda>f. (- priority f, case due_at f of None \<Rightarrow> 0 | Some d \<Rightarrow> d))
       (filter (overdue now) tbl)"

definition markReminded :: "nat \<Rightarrow> follow_up list \<Rightarrow> follow_up list" where
  "markReminded i tbl =
     map (\<lambda>f. if fu_id f = i
               then f\<lparr>status := Reminded, reminded_count := reminded_count f + 1\<rparr> else f) tbl"

definition expire :: "nat \<Rightarrow> follow_up list \<Rightarrow> follow_up list" where
  "expire i tbl = map (\<lambda>f. if fu_id f = i then f\<lparr>status := Expired\<rparr> else f) tbl"

definition resolve :: "nat \<Rightarrow> follow_up list \<Rightarrow> follow_up list" where
  "resolve i tbl = map (\<lambda>f. if fu_id f = i then f\<lparr>status := Resolved\<rparr> else f) tbl"

text \<open>
  The loop of \<open>getReminders\<close> over the rows that \<open>listOverdue\<close> returned: each row is the
  snapshot read by the query, the updates go to the table. \<open>displayName\<close> is the LEFT JOIN
  on the contacts table.
\<close>

definition toReminder :: "(jid \<Rightarrow> string option) \<Rightarrow> follow_up \<Rightarrow> reminder" where
  "toReminder displayName fu =
     \<lparr>r_jid = fu_jid fu, r_description = description fu, r_due_at = due_at fu,
      r_display_name = displayName (fu_jid fu), r_priority = priority fu\<rparr>"

fun remindLoop ::
  "(jid \<Rightarrow> string option) \<Rightarrow> follow_up list \<Rightarrow> follow_up list \<times> reminder list
     \<Rightarrow> follow_up list \<times> reminder list" where
  "remindLoop displayName [] acc = acc"
| "remindLoop displayName (fu # rest) (tbl, reminders) =
     remindLoop displayName rest
       (if reminded_count fu < 3
        then (markReminded (fu_id fu) tbl, reminders @ [toReminder displayName fu])
        else (expire (fu_id fu) tbl, reminders))"

text \<open>
  What one sweep does to a row, used to state the properties: an overdue row is reminded
  when its count is below 3 and expired otherwise; any other row is left alone.
\<close>

definition sweepRow :: "int \<Rightarrow> follow_up \<Rightarrow> follow_up" where
  "sweepRow now f =
     (if overdue now f
      then (if reminded_count f < 3
            then f\<lparr>status := Reminded, reminded_count := reminded_count f + 1\<rparr>
            else f\<lparr>status := Expired\<rparr>)
      else f)"

text \<open>
  The update of the table by one round of the loop, and what it does to the row it hits.
\<close>

definition stepTbl :: "follow_up \<Rightarrow> follow_up list \<Rightarrow> follow_up list" where
  "stepTbl fu tbl = (if reminded_count fu < 3 then markReminded (fu_id fu) tbl else expire (fu_id fu) tbl)"

definition applyRow :: "follow_up \<Rightarrow> follow_up" where
  "applyRow f = (if reminded_count f < 3
            then f\<lparr>status := Reminded, reminded_count := reminded_count f + 1\<rparr>
            else f\<lparr>status := Expired\<rparr>)"

definition getReminders ::
  "(jid \<Rightarrow> string option) \<Rightarrow> int \<Rightarrow> follow_up list \<Rightarrow> follow_up list \<times> reminder list" where
  "getReminders displayName now tbl = remindLoop displayName (listOverdue now tbl) (tbl, [])"

text \<open>
  The tables that the operations of the repository and the sweep of the tracker can
  produce from the empty table.
\<close>

inductive_set followUpTables :: "follow_up list set" where
  empty: "[] \<in> followUpTables"
| created: "tbl \<in> followUpTables \<Longrightarrow> snd (fu_create j descr st prio due tbl) \<in> followUpTables"
| resolved: "tbl \<in> followUpTables \<Longrightarrow> resolve i tbl \<in> followUpTables"
| swept: "tbl \<in> followUpTables \<Longrightarrow> fst (getReminders displayName now tbl) \<in> followUpTables"

section \<open>Message filter (src/safety/message-filter.js)\<close>

text \<open>
  A normalized transport event. The adapters set \<open>jid\<close> to the empty string when the
  event carries none; \<open>None\<close> in an optional field is \<open>undefined\<close>. The field
  \<open>msg_text\<close> is the event's \<open>text\<close>.
\<close>

record inbound =
  jid :: jid
  msg_text :: "string option"
  contentType :: "string option"
  isFromMe :: bool
  isGroup :: bool
  pushName :: "string option"
  timestamp :: "int option"
  hasMedia :: bool

record filter_result =
  pass :: bool
  reason :: "string option"

text \<open>\<open>x || undefined\<close> on an optional string: the empty string is falsy.\<close>

definition truthy :: "string option \<Rightarrow> string option" where
  "truthy s = (case s of None \<Rightarrow> None | Some v \<Rightarrow> if v = [] then None else Some v)"

definition messageFilter :: "safety_config \<Rightarrow> int \<Rightarrow> inbound \<Rightarrow> filter_result" where
  "messageFilter cfg clock msg =
     (if isGroup msg then \<lparr>pass = False, reason = Some ''group_message''\<rparr>
      else if (case msg_text msg of None \<Rightarrow> True | Some t \<Rightarrow> t = [] \<or> trim t = []) \<and> \<not> hasMedia msg
      then \<lparr>pass = False, reason = Some ''empty_message''\<rparr>
      else
        let now = clock div 1000;
            age = now - (case timestamp msg of None \<Rightarrow> now | Some ts \<Rightarrow> if ts = 0 then now else ts)
        in if age > oldMessageThresholdSec cfg
           then \<lparr>pass = False, reason = Some ''stale_message''\<rparr>
           else if jid msg = ''status@broadcast''
           then \<lparr>pass = False, reason = Some ''status_broadcast''\<rparr>
           else if isFromMe msg then \<lparr>pass = False, reason = Some ''own_message''\<rparr>
           else \<lparr>pass = True, reason = None\<rparr>)"

section \<open>Message router (the file that defines handleInbound)\<close>

text \<open>
  The router works on module-level maps, the database and the transport. The model
  threads one record through it: the three in-memory maps, the two tables the router
  touches, and traces of the calls that leave the process (transport, AI-capable
  collaborators, event bus). \<open>routeCalls\<close> is a trace of the entries into
  \<open>_routeAndReply\<close>; nothing reads it.
\<close>

record contact =
  display_name :: "string option"
  auto_reply_enabled :: int
  last_mood :: "string option"
  message_count :: int

record message_row =
  m_jid :: jid
  m_direction :: string
  m_content :: "string option"
  m_content_type :: string
  m_intent :: "string option"
  m_mood :: "string option"
  m_is_ai_generated :: bool

datatype transport_call = SimulateTyping jid int | SendMessage jid string

datatype ai_call =
    Analyze "string option"
  | GenerateReply jid
  | ScheduleRequest jid
  | KnowledgeQuery jid
  | FollowUpAnalysis jid string
  | LearnFromOwner jid "string option"

datatype bus_event =
    AlertMood jid string rat "string option"
  | IntentCommand inbound
  | N8nForward jid "string option" string string

record world =
  ownerActivity :: activity
  loopState :: loop_state
  rateWindows :: windows
  contacts :: "jid \<rightharpoonup> contact"
  messagesTable :: "message_row list"
  transportLog :: "transport_call list"
  aiLog :: "ai_call list"
  busLog :: "bus_event list"
  routeCalls :: "jid list"

text \<open>
  What the run of one handler gets from outside. The verdict of the bot detector (regular
  expressions over text and display name), the analysis of the intent detector and the
  outcome of the reply stage are taken as they come, so every theorem holds for all of
  them. \<open>fault\<close> says which collaborator call throws, and what. The handlers are
  \<open>async\<close>: at each \<open>await\<close> other handlers may run, and the \<open>after...\<close> functions are what
  they did to the state meanwhile. The clocks are the readings of \<open>Date.now()\<close> in the
  synchronous stretches between the awaits.
\<close>

datatype stage =
    BotInsert | Upsert | InboundInsert | UpdateProfile
  | TypingCall | SendCall | OutboundInsert
  | FallbackSend | FallbackInsert
  | OwnerUpsert | OwnerInsert
  | RecentQuery | ContactQuery

record bot_result =
  isBot :: bool
  botConfidence :: rat

record analysis =
  intent :: string
  confidence :: rat
  mood :: string
  moodIntensity :: rat
  language :: string

record env =
  fault :: "stage \<Rightarrow> js_error option"
  clock0 :: int
  botCheck :: bot_result
  analysisResult :: analysis
  afterAnalyze :: "world \<Rightarrow> world"
  clock1 :: int
  quotaExhausted :: bool
  generated :: "js_error + string option"
  afterGenerate :: "world \<Rightarrow> world"
  clockFinal :: int
  afterTyping :: "world \<Rightarrow> world"
  afterSend :: "world \<Rightarrow> world"
  clockRecord :: int
  n8nWebhook :: bool
  randomIndex :: nat
  afterFallbackSend :: "world \<Rightarrow> world"

text \<open>
  The canned replies; the emoji that ends each of them in the source is left out (the
  theory is ASCII).
\<close>

definition FALLBACK_MESSAGES :: "string list" where
  "FALLBACK_MESSAGES =
     [''Hey! I am taking a short break right now. Bhuwan will get back to you soon!'',
      ''Hi there! My brain is recharging at the moment. Bhuwan will reply shortly!'',
      ''Hey! I am temporarily unavailable, but Bhuwan will catch up with you soon!'']"

definition LOW_POWER_GREETING :: string where
  "LOW_POWER_GREETING = ''Hello! Friday here. I am currently running in low-power mode''"

text \<open>\<open>messagesRepo.insert\<close>: the row the INSERT statement stores.\<close>

definition messagesRepo_insert ::
  "jid \<Rightarrow> string \<Rightarrow> string option \<Rightarrow> string option \<Rightarrow> string option \<Rightarrow> string option \<Rightarrow> bool
     \<Rightarrow> message_row list \<Rightarrow> message_row list" where
  "messagesRepo_insert j dir cont ctype intnt md ai tbl =
     tbl @ [\<lparr>m_jid = j, m_direction = dir, m_content = cont,
              m_content_type = (case truthy ctype of None \<Rightarrow> ''text'' | Some t \<Rightarrow> t),
              m_intent = truthy intnt, m_mood = truthy md, m_is_ai_generated = ai\<rparr>]"


text \<open>
  \<open>contactsRepo.upsert(jid, data)\<close> for the two fields the router passes
  (\<open>display_name\<close>, \<open>last_mood\<close>; \<open>None\<close> is \<open>undefined\<close>): a present row gets the given
  fields and one more message counted, an absent one is inserted with the defaults.
\<close>

definition contacts_upsert ::
  "jid \<Rightarrow> string option \<Rightarrow> string option \<Rightarrow> (jid \<rightharpoonup> contact) \<Rightarrow> contact \<times> (jid \<rightharpoonup> contact)" where
  "contacts_upsert j dn lm cs =
     (let c = (case cs j of
                 Some existing \<Rightarrow>
                   existing\<lparr>display_name := (case dn of None \<Rightarrow> display_name existing | Some n \<Rightarrow> Some n),
                            last_mood := (case lm of None \<Rightarrow> last_mood existing | Some m \<Rightarrow> Some m),
                            message_count := message_count existing + 1\<rparr>
               | None \<Rightarrow>
                   \<lparr>display_name = truthy dn, auto_reply_enabled = 1,
                    last_mood = truthy lm, message_count = 1\<rparr>)
      in (c, cs(j \<mapsto> c)))"

definition isAlertWorthy :: "string \<Rightarrow> rat \<Rightarrow> bool" where
  "isAlertWorthy md intensity =
     (md \<in> set [''angry'', ''frustrated'', ''urgent'', ''sad'', ''anxious''] \<and> intensity \<ge> 7 / 10)"

definition isAiError :: "js_error \<Rightarrow> bool" where
  "isAiError err =
     (errName err = ''QuotaError'' \<or> errStatus err = Some 429 \<or> errStatus err = Some 404)"

text \<open>
  The second half of \<open>_routeAndReply\<close>, from the empty-reply test on. The result is the
  error thrown, if any, and the state at the return or the throw.
\<close>

definition deliver ::
  "env \<Rightarrow> inbound \<Rightarrow> string \<Rightarrow> string option \<Rightarrow> world \<Rightarrow> js_error option \<times> world" where
  "deliver e msg intnt aiReply w =
     (case aiReply of
        None \<Rightarrow> (None, w)
      | Some r \<Rightarrow>
         if r = [] \<or> trim r = [] then (None, w)
         else
           let (active, oa) = isOwnerActive (clockFinal e) (jid msg) (ownerActivity w);
               w1 = w\<lparr>ownerActivity := oa\<rparr>
           in if active then (None, w1)
              else case fault e TypingCall of
                Some err \<Rightarrow> (Some err, w1)
              | None \<Rightarrow>
                 let w2 = afterTyping e
                            (w1\<lparr>transportLog := transportLog w1 @
                                  [SimulateTyping (jid msg) (min (int (length r) * 15) 1500)]\<rparr>)
                 in case fault e SendCall of
                   Some err \<Rightarrow> (Some err, w2)
                 | None \<Rightarrow>
                    let w3 = afterSend e
                               (w2\<lparr>transportLog := transportLog w2 @ [SendMessage (jid msg) r]\<rparr>)
                    in case fault e OutboundInsert of
                      Some err \<Rightarrow> (Some err, w3)
                    | None \<Rightarrow>
                       let w4 = w3\<lparr>messagesTable :=
                                      messagesRepo_insert (jid msg) ''outbound'' (Some r)
                                        (Some ''text'') (Some intnt) None True (messagesTable w3)\<rparr>;
                           w5 = w4\<lparr>rateWindows :=
                                      rateLimiter_record (clockRecord e) (jid msg) (rateWindows w4)\<rparr>;
                           w6 = w5\<lparr>aiLog := aiLog w5 @ [FollowUpAnalysis (jid msg) r]\<rparr>;
                           w7 = (if n8nWebhook e
                                 then w6\<lparr>busLog := busLog w6 @
                                           [N8nForward (jid msg) (msg_text msg) r intnt]\<rparr>
                                 else w6)
                       in (None, w7))"

text \<open>
  A call of an AI-capable collaborator that is awaited: it is traced, other handlers run,
  and it returns a reply (possibly undefined or empty) or throws.
\<close>

definition awaitReply ::
  "env \<Rightarrow> ai_call \<Rightarrow> world \<Rightarrow> (js_error + string option) \<times> world" where
  "awaitReply e call w = (generated e, afterGenerate e (w\<lparr>aiLog := aiLog w @ [call]\<rparr>))"

text \<open>
  The \<open>switch\<close> of \<open>_routeAndReply\<close> for the intents that produce a reply: a greeting
  under exhausted quota gets the static reply without a call, everything else awaits a
  collaborator.
\<close>

definition produceReply ::
  "env \<Rightarrow> inbound \<Rightarrow> string \<Rightarrow> world \<Rightarrow> (js_error + string option) \<times> world" where
  "produceReply e msg intnt w =
     (if intnt = ''greeting''
      then (if quotaExhausted e then (Inr (Some LOW_POWER_GREETING), w)
            else awaitReply e (GenerateReply (jid msg)) w)
      else if intnt = ''schedule'' then awaitReply e (ScheduleRequest (jid msg)) w
      else if intnt = ''knowledge'' then awaitReply e (KnowledgeQuery (jid msg)) w
      else awaitReply e (GenerateReply (jid msg)) w)"

definition routeAndReply ::
  "env \<Rightarrow> inbound \<Rightarrow> string \<Rightarrow> world \<Rightarrow> js_error option \<times> world" where
  "routeAndReply e msg intnt w0 =
     (let w = w0\<lparr>routeCalls := routeCalls w0 @ [jid msg]\<rparr>
      in if intnt = ''command''
         then (None, w\<lparr>busLog := busLog w @ [IntentCommand msg]\<rparr>)
         else
           let (res, w1) = produceReply e msg intnt w
           in case res of
                Inl err \<Rightarrow> (Some err, w1)
              | Inr aiReply \<Rightarrow> deliver e msg intnt aiReply w1)"

text \<open>
  The body of the \<open>try\<close> in \<open>handleInbound\<close>, in two parts: the gates that run before the
  first \<open>await\<close>, and the rest from the analysis on.
\<close>

definition afterGates ::
  "env \<Rightarrow> inbound \<Rightarrow> contact \<Rightarrow> world \<Rightarrow> js_error option \<times> world" where
  "afterGates e msg c w =
     (let w1 = afterAnalyze e (w\<lparr>aiLog := aiLog w @ [Analyze (msg_text msg)]\<rparr>);
          an = analysisResult e
      in case fault e InboundInsert of
           Some err \<Rightarrow> (Some err, w1)
         | None \<Rightarrow>
            let w2 = w1\<lparr>messagesTable :=
                          messagesRepo_insert (jid msg) ''inbound'' (msg_text msg) (contentType msg)
                            (Some (intent an)) (Some (mood an)) False (messagesTable w1)\<rparr>
            in case (if mood an \<noteq> ''neutral'' then fault e UpdateProfile else None) of
                 Some err \<Rightarrow> (Some err, w2)
               | None \<Rightarrow>
                  let w3 = (if mood an \<noteq> ''neutral''
                            then w2\<lparr>contacts :=
                                      snd (contacts_upsert (jid msg) None (Some (mood an)) (contacts w2))\<rparr>
                            else w2)
                  in if auto_reply_enabled c = 0 then (None, w3)
                     else
                       let (active, oa) = isOwnerActive (clock1 e) (jid msg) (ownerActivity w3);
                           w4 = w3\<lparr>ownerActivity := oa\<rparr>
                       in if active then (None, w4)
                          else
                            let w5 = (if isAlertWorthy (mood an) (moodIntensity an)
                                      then w4\<lparr>busLog := busLog w4 @
                                                [AlertMood (jid msg) (mood an) (moodIntensity an) (msg_text msg)]\<rparr>
                                      else w4)
                            in routeAndReply e msg (intent an) w5)"

definition pipeline ::
  "safety_config \<Rightarrow> env \<Rightarrow> inbound \<Rightarrow> world \<Rightarrow> js_error option \<times> world" where
  "pipeline cfg e msg w =
     (if \<not> pass (messageFilter cfg (clock0 e) msg) then (None, w)
      else if isBot (botCheck e) \<and> botConfidence (botCheck e) \<ge> 7 / 10
      then (case fault e BotInsert of
              Some err \<Rightarrow> (Some err, w)
            | None \<Rightarrow>
               (None, w\<lparr>messagesTable :=
                          messagesRepo_insert (jid msg) ''inbound'' (msg_text msg) (contentType msg)
                            None None False (messagesTable w)\<rparr>))
      else
        let (loopCheck, ls) = loopDetector_check cfg (clock0 e) (jid msg) (msg_text msg) (loopState w);
            w1 = w\<lparr>loopState := ls\<rparr>
        in case loopCheck of
             Inl err \<Rightarrow> (Some err, w1)
           | Inr lc \<Rightarrow>
              if isHalted lc then (None, w1)
              else
                let (rateCheck, rw) = rateLimiter_check cfg (clock0 e) (jid msg) (rateWindows w1);
                    w2 = w1\<lparr>rateWindows := rw\<rparr>
                in if \<not> allowed rateCheck then (None, w2)
                   else case fault e Upsert of
                     Some err \<Rightarrow> (Some err, w2)
                   | None \<Rightarrow>
                      let (c, cs) = contacts_upsert (jid msg) (truthy (pushName msg)) None (contacts w2)
                      in afterGates e msg c (w2\<lparr>contacts := cs\<rparr>))"

text \<open>
  \<open>handleInbound\<close>: the pipeline and its \<open>catch\<close>. The handler returns the state only: no
  error leaves it. The fallback is \<open>FALLBACK_MESSAGES[Math.floor(Math.random() * 3)]\<close>, the
  index being \<open>randomIndex\<close> reduced to the length of the table.
\<close>

definition handleInbound :: "safety_config \<Rightarrow> env \<Rightarrow> inbound \<Rightarrow> world \<Rightarrow> world" where
  "handleInbound cfg e msg w =
     (case pipeline cfg e msg w of
        (None, w') \<Rightarrow> w'
      | (Some err, w') \<Rightarrow>
          if isAiError err \<and> jid msg \<noteq> []
          then
            let fallback = FALLBACK_MESSAGES ! (randomIndex e mod length FALLBACK_MESSAGES)
            in case fault e FallbackSend of
                 Some sendErr \<Rightarrow> w'
               | None \<Rightarrow>
                  let w1 = afterFallbackSend e
                             (w'\<lparr>transportLog := transportLog w' @ [SendMessage (jid msg) fallback]\<rparr>)
                  in case fault e FallbackInsert of
                       Some sendErr \<Rightarrow> w1
                     | None \<Rightarrow>
                        w1\<lparr>messagesTable :=
                             messagesRepo_insert (jid msg) ''outbound'' (Some fallback)
                               (Some ''text'') None None False (messagesTable w1)\<rparr>
          else w')"











section \<open>Example inputs\<close>

text \<open>
  Concrete inputs on which the theorems are instantiated: a configuration with a small
  rate limit, an environment in which no collaborator throws and no other handler runs,
  the empty state, and a text message from a contact.
\<close>

definition cfg0 :: safety_config where
  "cfg0 = \<lparr>rateLimitMax = 2, rateLimitWindowMs = 60000, loopDetectThreshold = 3,
            oldMessageThresholdSec = 60, haltDurationMs = 600000\<rparr>"

definition env0 :: env where
  "env0 = \<lparr>fault = (\<lambda>s. None), clock0 = 1000000,
            botCheck = \<lparr>isBot = False, botConfidence = 0\<rparr>,
            analysisResult = \<lparr>intent = ''general'', confidence = 1, mood = ''neutral'',
                              moodIntensity = 0, language = ''en''\<rparr>,
            afterAnalyze = (\<lambda>w. w), clock1 = 1000500, quotaExhausted = False,
            generated = Inr (Some ''ok''), afterGenerate = (\<lambda>w. w), clockFinal = 1002000,
            afterTyping = (\<lambda>w. w), afterSend = (\<lambda>w. w), clockRecord = 1003000,
            n8nWebhook = False, randomIndex = 4, afterFallbackSend = (\<lambda>w. w)\<rparr>"

definition world0 :: world where
  "world0 = \<lparr>ownerActivity = [], loopState = Map.empty, rateWindows = Map.empty,
              contacts = Map.empty, messagesTable = [], transportLog = [], aiLog = [],
              busLog = [], routeCalls = []\<rparr>"

definition msg0 :: inbound where
  "msg0 = \<lparr>jid = ''a@c.us'', msg_text = Some ''hello'', contentType = Some ''text'',
            isFromMe = False, isGroup = False, pushName = Some ''Ann'',
            timestamp = Some 1000, hasMedia = False\<rparr>"

text \<open>The empty state with the contact of \<open>msg0\<close> halted until just after \<open>clock0 env0\<close>.\<close>

definition halted0 :: world where
  "halted0 = world0\<lparr>loopState := Map.empty(''a@c.us'' \<mapsto> \<lparr>messages = [], haltedUntil = 1000001\<rparr>)\<rparr>"

text \<open>\<open>env0\<close> with a bot detector that rejects the message, at confidence 0.9.\<close>

definition env_bot :: env where
  "env_bot = env0\<lparr>botCheck := \<lparr>isBot = True, botConfidence = 9 / 10\<rparr>\<rparr>"

text \<open>
  Two more environments: in one the owner replies to the contact while the reply is being
  generated, in the other the reply stage throws the quota error. \<open>interjected0\<close> is the
  state the first of them leaves when the generation started from the empty state.
\<close>

definition env_interject :: env where
  "env_interject =
     env0\<lparr>afterGenerate :=
            (\<lambda>w. w\<lparr>ownerActivity := recordOwnerReply 1001000 ''a@c.us'' (ownerActivity w)\<rparr>)\<rparr>"

definition env_quota :: env where
  "env_quota = env0\<lparr>generated := Inl (JsError ''QuotaError'' (Some 429))\<rparr>"

definition interjected0 :: world where
  "interjected0 = world0\<lparr>ownerActivity := [(''a@c.us'', 1001000)],
                         aiLog := [GenerateReply ''a@c.us''], routeCalls := [''a@c.us'']\<rparr>"

text \<open>
  The state in which the reply stage of \<open>msg0\<close> throws when the run started from the empty
  state, and an environment in which it throws an error that is not an AI error.
\<close>

definition quota_thrown0 :: world where
  "quota_thrown0 =
     world0\<lparr>loopState := Map.empty(''a@c.us'' \<mapsto> \<lparr>messages = [''hello''], haltedUntil = 0\<rparr>),
            rateWindows := Map.empty(''a@c.us'' \<mapsto> []),
            contacts := Map.empty(''a@c.us'' \<mapsto>
               \<lparr>display_name = Some ''Ann'', auto_reply_enabled = 1, last_mood = None,
                message_count = 1\<rparr>),
            messagesTable := [\<lparr>m_jid = ''a@c.us'', m_direction = ''inbound'',
               m_content = Some ''hello'', m_content_type = ''text'', m_intent = Some ''general'',
               m_mood = Some ''neutral'', m_is_ai_generated = False\<rparr>],
            aiLog := [Analyze (Some ''hello''), GenerateReply ''a@c.us''],
            routeCalls := [''a@c.us'']\<rparr>"

definition env_typeerror :: env where
  "env_typeerror = env0\<lparr>generated := Inl TypeError\<rparr>"

text \<open>
  Loop states of the contact of \<open>msg0\<close>: two equal messages buffered, and three with the
  halt they set off at \<open>clock0 env0\<close>.
\<close>

definition loop2 :: loop_state where
  "loop2 = Map.empty(''a@c.us'' \<mapsto> \<lparr>messages = [''a b'', ''a b''], haltedUntil = 0\<rparr>)"

definition loop3 :: loop_state where
  "loop3 = Map.empty(''a@c.us'' \<mapsto> \<lparr>messages = [''a b'', ''a b'', ''a b''], haltedUntil = 1600000\<rparr>)"

text \<open>
  A follow-up table: one entry never reminded, one reminded three times, one not yet due
  at the instant 200.
\<close>

definition followups0 :: "follow_up list" where
  "followups0 =
     [\<lparr>fu_id = 1, fu_jid = ''a@c.us'', description = ''call back'', status = Pending,
       priority = 2, due_at = Some 100, reminded_count = 0\<rparr>,
      \<lparr>fu_id = 2, fu_jid = ''b@c.us'', description = ''send file'', status = Reminded,
       priority = 1, due_at = Some 50, reminded_count = 3\<rparr>,
      \<lparr>fu_id = 3, fu_jid = ''c@c.us'', description = ''later'', status = Pending,
       priority = 3, due_at = Some 900, reminded_count = 0\<rparr>]"

text \<open>
  A full cache: 200 sessions under two-letter JIDs, in the order \<open>Aa\<close>, \<open>Ab\<close>, ..., all
  last accessed at 1000 except \<open>Ah\<close>, last accessed at 500.
\<close>

definition keys200 :: "string list" where
  "keys200 = concat (map (\<lambda>a. map (\<lambda>b. [a, b]) ''abcdefghij'') ''ABCDEFGHIJKLMNOPQRST'')"

definition sessions200 :: sessions where
  "sessions200 =
     map (\<lambda>k. (k, \<lparr>history = [], lastAccess = (if k = ''Ah'' then 500 else 1000),
                    turnCount = 1, systemInstruction = ''old''\<rparr>))
       keys200"

text \<open>
  The same cache with its first session replaced by one under the empty JID, last
  accessed at 100.
\<close>

definition sessions200e :: sessions where
  "sessions200e =
     ([], \<lparr>history = [], lastAccess = 100, turnCount = 1, systemInstruction = ''old''\<rparr>)
       # tl sessions200"



section \<open>Properties of the offline assistant\<close>

lemma currentExpiry_update:
  "currentExpiry (AList.update j a m) j = a + COOLDOWN_MS"
  by (simp add: currentExpiry_def update_conv')

lemma isOwnerActive_anchor:
  "map_of m j = Some a \<Longrightarrow> a \<noteq> 0 \<Longrightarrow> fst (isOwnerActive t j m) = (t < a + COOLDOWN_MS)"
  by (auto simp: isOwnerActive_def)

text \<open>
  C3. \<open>recordTyping\<close> never shrinks the stored expiry (anchor + full cooldown, anchor 0 for
  an absent entry): the expiry afterwards is the later of the old expiry and the candidate
  \<open>now + TYPING_PAUSE_MS\<close>. When the candidate is later, the anchor becomes
  \<open>now + TYPING_PAUSE_MS - COOLDOWN_MS\<close>, the expiry is exactly the candidate, and (the
  new anchor not being the falsy 0) \<open>isOwnerActive\<close> answers true exactly before the
  candidate; otherwise the map is left as it was. With no cooldown pending the expiry
  becomes exactly the candidate; with a longer cooldown pending nothing changes. Other
  contacts are never touched.
\<close>

theorem recordTyping_never_shrinks:
  "currentExpiry (recordTyping now j m) j = max (currentExpiry m j) (now + TYPING_PAUSE_MS)
   \<and> (now + TYPING_PAUSE_MS > currentExpiry m j \<longrightarrow>
        map_of (recordTyping now j m) j = Some (now + TYPING_PAUSE_MS - COOLDOWN_MS)
      \<and> currentExpiry (recordTyping now j m) j = now + TYPING_PAUSE_MS
      \<and> (now + TYPING_PAUSE_MS - COOLDOWN_MS \<noteq> 0 \<longrightarrow>
           (\<forall>t. fst (isOwnerActive t j (recordTyping now j m)) = (t < now + TYPING_PAUSE_MS))))
   \<and> (\<not> now + TYPING_PAUSE_MS > currentExpiry m j \<longrightarrow> recordTyping now j m = m)
   \<and> (currentExpiry m j \<le> now \<longrightarrow>
        currentExpiry (recordTyping now j m) j = now + TYPING_PAUSE_MS)
   \<and> (now + TYPING_PAUSE_MS \<le> currentExpiry m j \<longrightarrow>
        recordTyping now j m = m \<and> currentExpiry (recordTyping now j m) j = currentExpiry m j)
   \<and> (\<forall>k. k \<noteq> j \<longrightarrow> map_of (recordTyping now j m) k = map_of m k)"
proof -
  have fire: "map_of (recordTyping now j m) j = Some (now + TYPING_PAUSE_MS - COOLDOWN_MS)"
    if "now + TYPING_PAUSE_MS > currentExpiry m j"
    using that by (simp add: recordTyping_def update_conv')
  have exp: "currentExpiry (recordTyping now j m) j = now + TYPING_PAUSE_MS"
    if "now + TYPING_PAUSE_MS > currentExpiry m j"
    using that by (simp add: recordTyping_def currentExpiry_update)
  have act: "fst (isOwnerActive t j (recordTyping now j m)) = (t < now + TYPING_PAUSE_MS)"
    if "now + TYPING_PAUSE_MS > currentExpiry m j" "now + TYPING_PAUSE_MS - COOLDOWN_MS \<noteq> 0"
    for t
    using isOwnerActive_anchor [OF fire [OF that(1)] that(2), of t] by simp
  have keep: "recordTyping now j m = m" if "\<not> now + TYPING_PAUSE_MS > currentExpiry m j"
    using that by (simp add: recordTyping_def)
  have pos: "0 < TYPING_PAUSE_MS" by (simp add: TYPING_PAUSE_MS_def)
  have other: "map_of (recordTyping now j m) k = map_of m k" if "k \<noteq> j" for k
    using that by (simp add: recordTyping_def update_conv')
  have mx: "currentExpiry (recordTyping now j m) j = max (currentExpiry m j) (now + TYPING_PAUSE_MS)"
    by (cases "now + TYPING_PAUSE_MS > currentExpiry m j") (simp_all add: exp keep)
  show ?thesis
    using fire exp act keep pos other mx by auto
qed

theorem recordTyping_never_shrinks_witness:
  "currentExpiry [] ''a@c.us'' \<le> 1000000
   \<and> 1000000 + TYPING_PAUSE_MS > currentExpiry [] ''a@c.us''
   \<and> 1000000 + TYPING_PAUSE_MS - COOLDOWN_MS \<noteq> 0
   \<and> recordTyping 1000000 ''a@c.us'' [] = [(''a@c.us'', 880000)]
   \<and> currentExpiry (recordTyping 1000000 ''a@c.us'' []) ''a@c.us'' = 1060000
   \<and> fst (isOwnerActive 1059999 ''a@c.us'' (recordTyping 1000000 ''a@c.us'' []))
   \<and> \<not> fst (isOwnerActive 1060000 ''a@c.us'' (recordTyping 1000000 ''a@c.us'' []))
   \<and> 1000000 + TYPING_PAUSE_MS \<le> currentExpiry [(''a@c.us'', 999000)] ''a@c.us''
   \<and> \<not> 1000000 + TYPING_PAUSE_MS > currentExpiry [(''a@c.us'', 999000)] ''a@c.us''
   \<and> recordTyping 1000000 ''a@c.us'' [(''a@c.us'', 999000)] = [(''a@c.us'', 999000)]
   \<and> ''b@c.us'' \<noteq> ''a@c.us''
   \<and> map_of (recordTyping 1000000 ''a@c.us'' [(''b@c.us'', 5)]) ''b@c.us'' = Some 5"
  using recordTyping_never_shrinks [of 1000000 "''a@c.us''" "[]"]
    recordTyping_never_shrinks [of 1000000 "''a@c.us''" "[(''a@c.us'', 999000)]"]
    recordTyping_never_shrinks [of 1000000 "''a@c.us''" "[(''b@c.us'', 5)]"]
  by (simp add: currentExpiry_def recordTyping_def isOwnerActive_def
      TYPING_PAUSE_MS_def COOLDOWN_MS_def)

section \<open>Properties of the rate limiter\<close>

lemma prune_dropWhile: "prune c ts = dropWhile (\<lambda>t. t < c) ts"
  by (induction ts) auto

















section \<open>Properties of the message router\<close>

lemma loop_check_halted:
  "st j = Some entry \<Longrightarrow> now < haltedUntil entry \<Longrightarrow>
   loopDetector_check cfg now j t st
     = (Inr \<lparr>loopDetected = True, isHalted = True, haltRemainingMs = Some (haltedUntil entry - now)\<rparr>, st)"
  by (simp add: loopDetector_check_def fun_upd_idem)

lemma pipeline_halted:
  assumes "loopState w (jid msg) = Some entry" "clock0 e < haltedUntil entry"
  shows "pipeline cfg e msg w =
     (if pass (messageFilter cfg (clock0 e) msg) \<and> isBot (botCheck e) \<and> botConfidence (botCheck e) \<ge> 7 / 10
      then (case fault e BotInsert of
              Some err \<Rightarrow> (Some err, w)
            | None \<Rightarrow> (None, w\<lparr>messagesTable :=
                          messagesRepo_insert (jid msg) ''inbound'' (msg_text msg) (contentType msg)
                            None None False (messagesTable w)\<rparr>))
      else (None, w))"
  using assms by (simp add: pipeline_def loop_check_halted)

text \<open>
  C1 (as amended). For an inbound message that arrives while the contact's \<open>haltedUntil\<close>
  is in the future (and provided the store does not answer the bot path's insert with an
  AI error), the handler calls no AI collaborator, sends nothing, routes nothing and leaves
  the rate window and the loop state alone. The message is stored exactly when it passes
  the message filter and the bot detector rejects it (\<open>isBot\<close> with confidence at least
  0.7) and the store accepts the insert: that store step precedes the loop gate, and the
  row it appends is the inbound message with its text and content type, no intent, no
  mood and \<open>is_ai_generated = false\<close>. In every other case, in particular for every
  message that reaches the loop gate, nothing is stored, and unless the bot path ran
  the state is left exactly as it was.
\<close>

theorem halted_contact_gets_no_reply:
  assumes "loopState w (jid msg) = Some entry" and "clock0 e < haltedUntil entry"
    and "case fault e BotInsert of None \<Rightarrow> True | Some err \<Rightarrow> \<not> isAiError err"
  shows "aiLog (handleInbound cfg e msg w) = aiLog w
       \<and> transportLog (handleInbound cfg e msg w) = transportLog w
       \<and> routeCalls (handleInbound cfg e msg w) = routeCalls w
       \<and> rateWindows (handleInbound cfg e msg w) = rateWindows w
       \<and> loopState (handleInbound cfg e msg w) = loopState w
       \<and> messagesTable (handleInbound cfg e msg w)
           = (if pass (messageFilter cfg (clock0 e) msg)
                 \<and> isBot (botCheck e) \<and> botConfidence (botCheck e) \<ge> 7 / 10
                 \<and> fault e BotInsert = None
              then messagesTable w
                   @ [\<lparr>m_jid = jid msg, m_direction = ''inbound'', m_content = msg_text msg,
                       m_content_type = (case truthy (contentType msg) of
                                           None \<Rightarrow> ''text'' | Some t \<Rightarrow> t),
                       m_intent = None, m_mood = None, m_is_ai_generated = False\<rparr>]
              else messagesTable w)
       \<and> (\<not> (pass (messageFilter cfg (clock0 e) msg)
               \<and> isBot (botCheck e) \<and> botConfidence (botCheck e) \<ge> 7 / 10) \<longrightarrow>
            handleInbound cfg e msg w = w)"
  using assms(3)
  by (auto simp: handleInbound_def pipeline_halted [OF assms(1,2)] messagesRepo_insert_def
           truthy_def split: option.splits)

text \<open>
  C1 as stated fails: the contact of \<open>msg0\<close> is halted at \<open>clock0 env0\<close>, the message
  passes the filter and the bot check, and the handler returns at the loop gate with the
  messages table still empty.
\<close>

theorem halted_message_not_persisted_counterexample:
  "loopState halted0 (jid msg0) = Some \<lparr>messages = [], haltedUntil = 1000001\<rparr>
   \<and> clock0 env0 < 1000001
   \<and> messagesTable (handleInbound cfg0 env0 msg0 halted0) = []"
  by (simp add: handleInbound_def pipeline_def halted0_def world0_def msg0_def env0_def cfg0_def
        messageFilter_def trim_def is_ws_def loopDetector_check_def)

theorem halted_contact_gets_no_reply_witness:
  "loopState halted0 (jid msg0) = Some \<lparr>messages = [], haltedUntil = 1000001\<rparr>
   \<and> clock0 env0 < haltedUntil \<lparr>messages = [], haltedUntil = 1000001\<rparr>
   \<and> clock0 env_bot < haltedUntil \<lparr>messages = [], haltedUntil = 1000001\<rparr>
   \<and> (case fault env0 BotInsert of None \<Rightarrow> True | Some err \<Rightarrow> \<not> isAiError err)
   \<and> (case fault env_bot BotInsert of None \<Rightarrow> True | Some err \<Rightarrow> \<not> isAiError err)
   \<and> pass (messageFilter cfg0 (clock0 env0) msg0)
   \<and> \<not> (isBot (botCheck env0) \<and> botConfidence (botCheck env0) \<ge> 7 / 10)
   \<and> handleInbound cfg0 env0 msg0 halted0 = halted0
   \<and> messagesTable (handleInbound cfg0 env0 msg0 halted0) = []
   \<and> aiLog (handleInbound cfg0 env0 msg0 halted0) = []
   \<and> transportLog (handleInbound cfg0 env0 msg0 halted0) = []
   \<and> pass (messageFilter cfg0 (clock0 env_bot) msg0)
   \<and> isBot (botCheck env_bot) \<and> botConfidence (botCheck env_bot) \<ge> 7 / 10
   \<and> fault env_bot BotInsert = None
   \<and> messagesTable (handleInbound cfg0 env_bot msg0 halted0)
       = [\<lparr>m_jid = ''a@c.us'', m_direction = ''inbound'', m_content = Some ''hello'',
           m_content_type = ''text'', m_intent = None, m_mood = None,
           m_is_ai_generated = False\<rparr>]
   \<and> aiLog (handleInbound cfg0 env_bot msg0 halted0) = []
   \<and> transportLog (handleInbound cfg0 env_bot msg0 halted0) = []
   \<and> loopState (handleInbound cfg0 env_bot msg0 halted0) = loopState halted0"
proof -
  have h1: "loopState halted0 (jid msg0) = Some \<lparr>messages = [], haltedUntil = 1000001\<rparr>"
    by (simp add: halted0_def msg0_def)
  have h2: "clock0 env0 < haltedUntil \<lparr>messages = [], haltedUntil = 1000001\<rparr>"
    by (simp add: env0_def)
  have h2b: "clock0 env_bot < haltedUntil \<lparr>messages = [], haltedUntil = 1000001\<rparr>"
    by (simp add: env_bot_def env0_def)
  have h3: "case fault env0 BotInsert of None \<Rightarrow> True | Some err \<Rightarrow> \<not> isAiError err"
    by (simp add: env0_def)
  have h3b: "case fault env_bot BotInsert of None \<Rightarrow> True | Some err \<Rightarrow> \<not> isAiError err"
    by (simp add: env_bot_def env0_def)
  have p: "pass (messageFilter cfg0 (clock0 env0) msg0)"
      "pass (messageFilter cfg0 (clock0 env_bot) msg0)"
    by (simp_all add: messageFilter_def cfg0_def env_bot_def env0_def msg0_def trim_def is_ws_def)
  have h4: "\<not> (isBot (botCheck env0) \<and> botConfidence (botCheck env0) \<ge> 7 / 10)"
    by (simp add: env0_def)
  have h4b: "isBot (botCheck env_bot)" "botConfidence (botCheck env_bot) \<ge> 7 / 10"
      "fault env_bot BotInsert = None"
    by (simp_all add: env_bot_def env0_def)
  have h5: "aiLog halted0 = []" "transportLog halted0 = []" "messagesTable halted0 = []"
    by (simp_all add: halted0_def world0_def)
  have m: "jid msg0 = ''a@c.us''" "msg_text msg0 = Some ''hello''"
      "(case truthy (contentType msg0) of None \<Rightarrow> ''text'' | Some t \<Rightarrow> t) = ''text''"
    by (simp_all add: msg0_def truthy_def)
  note a = halted_contact_gets_no_reply [OF h1 h2 h3, of cfg0]
  note b = halted_contact_gets_no_reply [OF h1 h2b h3b, of cfg0]
  from a p(1) h4 have a1: "handleInbound cfg0 env0 msg0 halted0 = halted0" by simp
  from a1 h5 have a2: "messagesTable (handleInbound cfg0 env0 msg0 halted0) = []"
      "aiLog (handleInbound cfg0 env0 msg0 halted0) = []"
      "transportLog (handleInbound cfg0 env0 msg0 halted0) = []"
    by simp_all
  from b p(2) h4b h5 m have b1: "messagesTable (handleInbound cfg0 env_bot msg0 halted0)
       = [\<lparr>m_jid = ''a@c.us'', m_direction = ''inbound'', m_content = Some ''hello'',
           m_content_type = ''text'', m_intent = None, m_mood = None,
           m_is_ai_generated = False\<rparr>]"
    by simp
  from b h5 have b2: "aiLog (handleInbound cfg0 env_bot msg0 halted0) = []"
      "transportLog (handleInbound cfg0 env_bot msg0 halted0) = []"
      "loopState (handleInbound cfg0 env_bot msg0 halted0) = loopState halted0"
    by simp_all
  from h1 h2 h2b h3 h3b p(1) h4 a1 a2 p(2) h4b b1 b2 show ?thesis by (intro conjI)
qed

lemma isOwnerActive_True_snd: "fst (isOwnerActive t j m) \<Longrightarrow> snd (isOwnerActive t j m) = m"
  by (auto simp: isOwnerActive_def split: option.splits if_splits)

lemma deliver_active:
  "fst (isOwnerActive (clockFinal e) (jid msg) (ownerActivity w)) \<Longrightarrow> deliver e msg intnt aiReply w = (None, w)"
proof -
  assume a: "fst (isOwnerActive (clockFinal e) (jid msg) (ownerActivity w))"
  then have "isOwnerActive (clockFinal e) (jid msg) (ownerActivity w) = (True, ownerActivity w)"
    using isOwnerActive_True_snd [OF a] by (simp add: prod_eq_iff)
  then show ?thesis
    by (simp add: deliver_def Let_def split: option.splits)
qed

lemma routeAndReply_active:
  assumes "intnt \<noteq> ''command''"
    and "produceReply e msg intnt (w0\<lparr>routeCalls := routeCalls w0 @ [jid msg]\<rparr>) = (Inr aiReply, w1)"
    and "fst (isOwnerActive (clockFinal e) (jid msg) (ownerActivity w1))"
  shows "routeAndReply e msg intnt w0 = (None, w1)"
  using assms by (simp add: routeAndReply_def Let_def deliver_active)

lemma deliver_inactive:
  assumes "\<not> fst (isOwnerActive (clockFinal e) (jid msg) (ownerActivity w))"
    and "trim r \<noteq> []"
    and "fault e TypingCall = None" "fault e SendCall = None" "fault e OutboundInsert = None"
    and "afterTyping e = (\<lambda>w. w)" "afterSend e = (\<lambda>w. w)"
  shows "fst (deliver e msg intnt (Some r) w) = None
       \<and> transportLog (snd (deliver e msg intnt (Some r) w))
           = transportLog w @ [SimulateTyping (jid msg) (min (int (length r) * 15) 1500),
                               SendMessage (jid msg) r]
       \<and> messagesTable (snd (deliver e msg intnt (Some r) w))
           = messagesTable w @ [\<lparr>m_jid = jid msg, m_direction = ''outbound'', m_content = Some r,
                                 m_content_type = ''text'', m_intent = truthy (Some intnt),
                                 m_mood = None, m_is_ai_generated = True\<rparr>]
       \<and> timestampsOf (rateWindows (snd (deliver e msg intnt (Some r) w))) (jid msg)
           = timestampsOf (rateWindows w) (jid msg) @ [clockRecord e]"
proof -
  from assms(2) have "r \<noteq> []" by (auto simp: trim_def)
  with assms show ?thesis
    by (cases "isOwnerActive (clockFinal e) (jid msg) (ownerActivity w)")
       (simp add: deliver_def Let_def messagesRepo_insert_def truthy_def
          rateLimiter_record_def timestampsOf_def)
qed

text \<open>
  C2. The last thing \<open>_routeAndReply\<close> does before sending is to ask \<open>isOwnerActive\<close> again,
  on the state as it is after the reply was generated. If the owner is active then (for
  instance because an owner message was handled while the AI call was in flight), the
  reply is dropped: the state stays exactly as the generation left it, so nothing is sent,
  no outbound row is stored and no rate stamp is recorded. If the owner is not active
  then, and the collaborators work and no other handler runs meanwhile, the reply is
  sent, stored as an AI-generated outbound row and recorded in the rate window.
\<close>

theorem final_interjection_check:
  "(fst (isOwnerActive (clockFinal e) (jid msg) (ownerActivity w)) \<longrightarrow>
      deliver e msg intnt aiReply w = (None, w))
   \<and> (intnt \<noteq> ''command'' \<longrightarrow>
      produceReply e msg intnt (w0\<lparr>routeCalls := routeCalls w0 @ [jid msg]\<rparr>) = (Inr aiReply, w1) \<longrightarrow>
      fst (isOwnerActive (clockFinal e) (jid msg) (ownerActivity w1)) \<longrightarrow>
      routeAndReply e msg intnt w0 = (None, w1))
   \<and> (\<not> fst (isOwnerActive (clockFinal e) (jid msg) (ownerActivity w)) \<longrightarrow>
      trim r \<noteq> [] \<longrightarrow>
      fault e TypingCall = None \<longrightarrow> fault e SendCall = None \<longrightarrow> fault e OutboundInsert = None \<longrightarrow>
      afterTyping e = (\<lambda>w. w) \<longrightarrow> afterSend e = (\<lambda>w. w) \<longrightarrow>
      fst (deliver e msg intnt (Some r) w) = None
      \<and> transportLog (snd (deliver e msg intnt (Some r) w))
           = transportLog w @ [SimulateTyping (jid msg) (min (int (length r) * 15) 1500),
                               SendMessage (jid msg) r]
      \<and> messagesTable (snd (deliver e msg intnt (Some r) w))
           = messagesTable w @ [\<lparr>m_jid = jid msg, m_direction = ''outbound'', m_content = Some r,
                                 m_content_type = ''text'', m_intent = truthy (Some intnt),
                                 m_mood = None, m_is_ai_generated = True\<rparr>]
      \<and> timestampsOf (rateWindows (snd (deliver e msg intnt (Some r) w))) (jid msg)
           = timestampsOf (rateWindows w) (jid msg) @ [clockRecord e])"
  using deliver_active [of e msg w intnt aiReply] routeAndReply_active [of intnt e msg w0 aiReply w1]
    deliver_inactive [of e msg w r intnt]
  by blast

theorem final_interjection_check_witness:
  "''general'' \<noteq> ''command''
   \<and> \<not> fst (isOwnerActive (clock1 env_interject) (jid msg0) (ownerActivity world0))
   \<and> produceReply env_interject msg0 ''general'' (world0\<lparr>routeCalls := routeCalls world0 @ [jid msg0]\<rparr>)
       = (Inr (Some ''ok''), interjected0)
   \<and> fst (isOwnerActive (clockFinal env_interject) (jid msg0) (ownerActivity interjected0))
   \<and> routeAndReply env_interject msg0 ''general'' world0 = (None, interjected0)
   \<and> transportLog interjected0 = [] \<and> messagesTable interjected0 = []
   \<and> rateWindows interjected0 (jid msg0) = None
   \<and> transportLog (handleInbound cfg0 env_interject msg0 world0) = []
   \<and> map m_direction (messagesTable (handleInbound cfg0 env_interject msg0 world0)) = [''inbound'']
   \<and> rateWindows (handleInbound cfg0 env_interject msg0 world0) (jid msg0) = Some []
   \<and> \<not> fst (isOwnerActive (clockFinal env0) (jid msg0) (ownerActivity world0))
   \<and> trim ''ok'' \<noteq> []
   \<and> transportLog (snd (deliver env0 msg0 ''general'' (Some ''ok'') world0))
       = [SimulateTyping ''a@c.us'' 30, SendMessage ''a@c.us'' ''ok'']"
proof -
  have p: "produceReply env_interject msg0 ''general'' (world0\<lparr>routeCalls := routeCalls world0 @ [jid msg0]\<rparr>)
       = (Inr (Some ''ok''), interjected0)"
    by (simp add: produceReply_def awaitReply_def env_interject_def env0_def msg0_def world0_def
          interjected0_def recordOwnerReply_def)
  have a: "fst (isOwnerActive (clockFinal env_interject) (jid msg0) (ownerActivity interjected0))"
    by (simp add: isOwnerActive_def env_interject_def env0_def msg0_def interjected0_def COOLDOWN_MS_def)
  have n: "\<not> fst (isOwnerActive (clockFinal env0) (jid msg0) (ownerActivity world0))"
    by (simp add: isOwnerActive_def world0_def)
  have t: "trim ''ok'' \<noteq> []" by (simp add: trim_def is_ws_def)
  have f: "fault env0 TypingCall = None" "fault env0 SendCall = None" "fault env0 OutboundInsert = None"
    "afterTyping env0 = (\<lambda>w. w)" "afterSend env0 = (\<lambda>w. w)"
    by (simp_all add: env0_def)
  have h: "transportLog (handleInbound cfg0 env_interject msg0 world0) = []
     \<and> map m_direction (messagesTable (handleInbound cfg0 env_interject msg0 world0)) = [''inbound'']
     \<and> rateWindows (handleInbound cfg0 env_interject msg0 world0) (jid msg0) = Some []"
    by (simp add: handleInbound_def pipeline_def cfg0_def env_interject_def env0_def msg0_def world0_def
        messageFilter_def trim_def is_ws_def loopDetector_check_def toLowerCase_def WINDOW_SIZE_def
        hasRepetition_def slice_from_def rateLimiter_check_def timestampsOf_def contacts_upsert_def
        truthy_def afterGates_def messagesRepo_insert_def isOwnerActive_def isAlertWorthy_def
        routeAndReply_def produceReply_def awaitReply_def deliver_def recordOwnerReply_def
        COOLDOWN_MS_def Let_def)
  show ?thesis
    using final_interjection_check [of env_interject msg0 interjected0 "''general''" "Some ''ok''" world0 interjected0 "''ok''"]
      final_interjection_check [of env0 msg0 world0 "''general''" "Some ''ok''" world0 world0 "''ok''"]
      p a n t f h
    by (simp add: interjected0_def world0_def msg0_def env_interject_def env0_def isOwnerActive_def)
qed

lemma fallback_in_table: "FALLBACK_MESSAGES ! (k mod length FALLBACK_MESSAGES) \<in> set FALLBACK_MESSAGES"
  by (rule nth_mem) (simp add: FALLBACK_MESSAGES_def)

lemma handleInbound_no_error: "pipeline cfg e msg w = (None, w') \<Longrightarrow> handleInbound cfg e msg w = w'"
  by (simp add: handleInbound_def)

lemma handleInbound_other_error:
  "pipeline cfg e msg w = (Some err, w') \<Longrightarrow> \<not> isAiError err \<Longrightarrow> handleInbound cfg e msg w = w'"
  by (simp add: handleInbound_def)

lemma handleInbound_ai_error:
  assumes "pipeline cfg e msg w = (Some err, w')" "isAiError err" "jid msg \<noteq> []"
    and "fault e FallbackSend = None" "fault e FallbackInsert = None"
  shows "\<exists>fb. fb \<in> set FALLBACK_MESSAGES
         \<and> handleInbound cfg e msg w
           = (afterFallbackSend e (w'\<lparr>transportLog := transportLog w' @ [SendMessage (jid msg) fb]\<rparr>))
               \<lparr>messagesTable :=
                  messagesTable (afterFallbackSend e
                      (w'\<lparr>transportLog := transportLog w' @ [SendMessage (jid msg) fb]\<rparr>))
                  @ [\<lparr>m_jid = jid msg, m_direction = ''outbound'', m_content = Some fb,
                      m_content_type = ''text'', m_intent = None, m_mood = None,
                      m_is_ai_generated = False\<rparr>]\<rparr>"
  using assms fallback_in_table [of "randomIndex e"]
  by (intro exI [of _ "FALLBACK_MESSAGES ! (randomIndex e mod length FALLBACK_MESSAGES)"])
     (simp add: handleInbound_def Let_def messagesRepo_insert_def truthy_def)

lemma routeAndReply_generation_error:
  assumes "intnt \<noteq> ''command''" "\<not> (intnt = ''greeting'' \<and> quotaExhausted e)" "generated e = Inl err"
  shows "fst (routeAndReply e msg intnt w) = Some err"
  using assms by (auto simp: routeAndReply_def produceReply_def awaitReply_def Let_def)

text \<open>
  C8. \<open>handleInbound\<close> returns a state and never an error. When the pipeline throws an
  AI error (\<open>QuotaError\<close>, or status 429 or 404), as the reply stage does when the AI
  collaborator throws one, and the event names a contact, and the transport and the
  store accept the fallback, then one of the canned fallback messages is sent to the
  contact and stored as an outbound text row (not AI-generated), on top of the state at
  the throw. When the pipeline throws any other error, the result is the state at the
  throw: nothing is sent, nothing is stored, nothing is retried.
\<close>

theorem ai_error_fallback:
  "(pipeline cfg e msg w = (None, w') \<longrightarrow> handleInbound cfg e msg w = w')
   \<and> (pipeline cfg e msg w = (Some err, w') \<longrightarrow> isAiError err \<longrightarrow> jid msg \<noteq> [] \<longrightarrow>
        fault e FallbackSend = None \<longrightarrow> fault e FallbackInsert = None \<longrightarrow>
        (\<exists>fb. fb \<in> set FALLBACK_MESSAGES
          \<and> handleInbound cfg e msg w
            = (afterFallbackSend e (w'\<lparr>transportLog := transportLog w' @ [SendMessage (jid msg) fb]\<rparr>))
                \<lparr>messagesTable :=
                   messagesTable (afterFallbackSend e
                       (w'\<lparr>transportLog := transportLog w' @ [SendMessage (jid msg) fb]\<rparr>))
                   @ [\<lparr>m_jid = jid msg, m_direction = ''outbound'', m_content = Some fb,
                       m_content_type = ''text'', m_intent = None, m_mood = None,
                       m_is_ai_generated = False\<rparr>]\<rparr>))
   \<and> (pipeline cfg e msg w = (Some err, w') \<longrightarrow> \<not> isAiError err \<longrightarrow>
        handleInbound cfg e msg w = w')
   \<and> (intnt \<noteq> ''command'' \<longrightarrow> \<not> (intnt = ''greeting'' \<and> quotaExhausted e) \<longrightarrow>
        generated e = Inl err \<longrightarrow> fst (routeAndReply e msg intnt w0) = Some err)
   \<and> (isAiError err \<longleftrightarrow>
        errName err = ''QuotaError'' \<or> errStatus err = Some 429 \<or> errStatus err = Some 404)"
  using handleInbound_no_error [of cfg e msg w w'] handleInbound_ai_error [of cfg e msg w err w']
    handleInbound_other_error [of cfg e msg w err w']
    routeAndReply_generation_error [of intnt e err msg w0]
  by (simp add: isAiError_def)

lemma pipeline_quota0:
  "pipeline cfg0 env_quota msg0 world0 = (Some (JsError ''QuotaError'' (Some 429)), quota_thrown0)"
  by (simp add: pipeline_def cfg0_def env_quota_def env0_def msg0_def world0_def quota_thrown0_def
        messageFilter_def trim_def is_ws_def loopDetector_check_def toLowerCase_def WINDOW_SIZE_def
        hasRepetition_def slice_from_def rateLimiter_check_def timestampsOf_def contacts_upsert_def
        truthy_def afterGates_def messagesRepo_insert_def isOwnerActive_def isAlertWorthy_def
        routeAndReply_def produceReply_def awaitReply_def Let_def)

lemma pipeline_typeerror0:
  "pipeline cfg0 env_typeerror msg0 world0 = (Some TypeError, quota_thrown0)"
  by (simp add: pipeline_def cfg0_def env_typeerror_def env0_def msg0_def world0_def quota_thrown0_def
        messageFilter_def trim_def is_ws_def loopDetector_check_def toLowerCase_def WINDOW_SIZE_def
        hasRepetition_def slice_from_def rateLimiter_check_def timestampsOf_def contacts_upsert_def
        truthy_def afterGates_def messagesRepo_insert_def isOwnerActive_def isAlertWorthy_def
        routeAndReply_def produceReply_def awaitReply_def Let_def)

theorem ai_error_fallback_witness:
  "pipeline cfg0 env_quota msg0 world0 = (Some (JsError ''QuotaError'' (Some 429)), quota_thrown0)
   \<and> isAiError (JsError ''QuotaError'' (Some 429)) \<and> jid msg0 \<noteq> []
   \<and> fault env_quota FallbackSend = None \<and> fault env_quota FallbackInsert = None
   \<and> transportLog (handleInbound cfg0 env_quota msg0 world0)
       = [SendMessage ''a@c.us'' (FALLBACK_MESSAGES ! 1)]
   \<and> messagesTable (handleInbound cfg0 env_quota msg0 world0)
       = messagesTable quota_thrown0
         @ [\<lparr>m_jid = ''a@c.us'', m_direction = ''outbound'', m_content = Some (FALLBACK_MESSAGES ! 1),
             m_content_type = ''text'', m_intent = None, m_mood = None, m_is_ai_generated = False\<rparr>]
   \<and> pipeline cfg0 env_typeerror msg0 world0 = (Some TypeError, quota_thrown0)
   \<and> \<not> isAiError TypeError
   \<and> handleInbound cfg0 env_typeerror msg0 world0 = quota_thrown0
   \<and> transportLog quota_thrown0 = []
   \<and> fst (routeAndReply env_quota msg0 ''general'' world0) = Some (JsError ''QuotaError'' (Some 429))"
proof -
  have g: "''general'' \<noteq> ''command''" "\<not> (''general'' = ''greeting'' \<and> quotaExhausted env_quota)"
      "generated env_quota = Inl (JsError ''QuotaError'' (Some 429))"
    by (simp_all add: env_quota_def env0_def)
  have q: "isAiError (JsError ''QuotaError'' (Some 429))" "\<not> isAiError TypeError" "jid msg0 \<noteq> []"
      "fault env_quota FallbackSend = None" "fault env_quota FallbackInsert = None"
      "transportLog quota_thrown0 = []"
    by (simp_all add: isAiError_def TypeError_def msg0_def env_quota_def env0_def quota_thrown0_def world0_def)
  have r: "randomIndex env_quota mod length FALLBACK_MESSAGES = 1"
      "afterFallbackSend env_quota = (\<lambda>w. w)"
    by (simp_all add: env_quota_def env0_def FALLBACK_MESSAGES_def)
  have h: "handleInbound cfg0 env_quota msg0 world0
       = quota_thrown0\<lparr>transportLog := [SendMessage ''a@c.us'' (FALLBACK_MESSAGES ! 1)],
                       messagesTable := messagesTable quota_thrown0
         @ [\<lparr>m_jid = ''a@c.us'', m_direction = ''outbound'', m_content = Some (FALLBACK_MESSAGES ! 1),
             m_content_type = ''text'', m_intent = None, m_mood = None, m_is_ai_generated = False\<rparr>]\<rparr>"
  proof -
    have j: "jid msg0 = ''a@c.us''" by (simp add: msg0_def)
    show ?thesis
      using q r by (simp add: handleInbound_def pipeline_quota0 Let_def messagesRepo_insert_def truthy_def j)
  qed
  show ?thesis
    using ai_error_fallback [of cfg0 env_typeerror msg0 world0 quota_thrown0 TypeError "''general''" world0]
      ai_error_fallback [of cfg0 env_quota msg0 world0 quota_thrown0 "JsError ''QuotaError'' (Some 429)" "''general''" world0]
      pipeline_quota0 pipeline_typeerror0 g q h
    by simp
qed






section \<open>Properties of the loop detector\<close>

lemma split_ws_from_nonempty: "split_ws_from cur s \<noteq> []"
  by (induction cur s rule: split_ws_from.induct) auto

lemma split_ws_nonempty: "split_ws s \<noteq> []"
  by (simp add: split_ws_def split_ws_from_nonempty)

lemma similar_jaccard:
  "similar (remdups (split_ws a)) m = (jaccard a m \<ge> 8 / 10)"
proof -
  let ?A = "set (split_ws a)" and ?B = "set (split_ws m)"
  have i: "length (filter (\<lambda>w. w \<in> set (remdups (split_ws m))) (remdups (split_ws a))) = card (?A \<inter> ?B)"
  proof -
    have "length (filter (\<lambda>w. w \<in> ?B) (remdups (split_ws a)))
            = card ({w. w \<in> ?B} \<inter> set (remdups (split_ws a)))"
      by (rule distinct_length_filter) simp
    also have "{w. w \<in> ?B} \<inter> set (remdups (split_ws a)) = ?A \<inter> ?B" by auto
    finally show ?thesis by simp
  qed
  have u: "length (remdups (remdups (split_ws a) @ remdups (split_ws m))) = card (?A \<union> ?B)"
    by (simp add: length_remdups_card_conv)
  have "?A \<noteq> {}" using split_ws_nonempty [of a] by simp
  then have "card (?A \<union> ?B) > 0" by (simp add: card_gt_0_iff)
  then show ?thesis
    unfolding similar_def Let_def i u jaccard_def SIMILARITY_THRESHOLD_def by blast
qed

lemma countSimilar_filter:
  "countSimilar first ms n = n + length (filter (similar first) ms)"
  by (induction ms arbitrary: n) auto

lemma length_filter_all: "(length xs \<le> length (filter P xs)) = (\<forall>x \<in> set xs. P x)"
proof (induction xs)
  case Nil
  then show ?case by simp
next
  case (Cons x xs)
  have le: "length (filter P xs) \<le> length xs" by (rule length_filter_le)
  show ?case
  proof (cases "P x")
    case True
    with Cons show ?thesis by simp
  next
    case False
    from le have "\<not> Suc (length xs) \<le> length (filter P xs)" by arith
    with False show ?thesis by simp
  qed
qed

lemma hasRepetition_rule:
  assumes "2 \<le> length msgs"
  shows "hasRepetition msgs
           = (card (set msgs) = 1 \<or> (\<forall>m \<in> set (tl msgs). jaccard (hd msgs) m \<ge> 8 / 10))"
proof -
  let ?first = "remdups (split_ws (hd msgs))"
  have "hasRepetition msgs
          = (length (remdups msgs) = 1 \<or> length msgs - 1 \<le> countSimilar ?first (tl msgs) 0)"
    using assms unfolding hasRepetition_def Let_def by auto
  also have "\<dots> = (card (set msgs) = 1 \<or> length (tl msgs) \<le> length (filter (similar ?first) (tl msgs)))"
    by (simp add: countSimilar_filter length_remdups_card_conv)
  also have "\<dots> = (card (set msgs) = 1 \<or> (\<forall>m \<in> set (tl msgs). jaccard (hd msgs) m \<ge> 8 / 10))"
    unfolding length_filter_all similar_jaccard ..
  finally show ?thesis .
qed


lemma slice_last:
  "1 \<le> k \<Longrightarrow> k \<le> int (length xs) \<Longrightarrow> slice_from (- k) xs = drop (length xs - nat k) xs"
  by (simp add: slice_from_def nat_diff_distrib')

lemma hasRepetition_short: "length msgs < 2 \<Longrightarrow> \<not> hasRepetition msgs"
  by (simp add: hasRepetition_def)

lemma check_not_halted:
  assumes "(case st j of None \<Rightarrow> 0 | Some entry \<Rightarrow> haltedUntil entry) \<le> now"
  shows "\<exists>r entry'. loopDetector_check cfg now j (Some body) st = (Inr r, st(j \<mapsto> entry'))
          \<and> messages entry'
              = (\<lambda>p. if WINDOW_SIZE < length p then tl p else p)
                  ((case st j of None \<Rightarrow> []
                    | Some entry \<Rightarrow> if 0 < haltedUntil entry then [] else messages entry)
                   @ [trim (toLowerCase body)])
          \<and> (isHalted r \<longleftrightarrow>
                loopDetectThreshold cfg \<le> int (length (messages entry'))
                \<and> hasRepetition (slice_from (- loopDetectThreshold cfg) (messages entry')))
          \<and> (isHalted r \<longrightarrow>
                loopDetected r \<and> haltedUntil entry' = now + haltDurationMs cfg
                \<and> haltRemainingMs r = Some (haltDurationMs cfg))
          \<and> (\<not> isHalted r \<longrightarrow> \<not> loopDetected r \<and> haltedUntil entry' \<le> now)"
  using assms
  by (cases "st j") (auto simp: loopDetector_check_def Let_def)

text \<open>
  C4 (as amended). The repetition test on a slice of at least two messages succeeds when
  the slice has one distinct message, and otherwise exactly when every later message has
  a word-set Jaccard similarity of at least 0.8 with the first one (the count of similar
  messages must reach the length of the slice minus one, and that many messages are
  compared); a slice of fewer than two messages never succeeds. A halted contact gets
  the halted answer with the time left, and nothing is re-evaluated or changed. For a
  contact that is not halted, \<open>check\<close> buffers the lowered and trimmed text (after dropping
  the buffer of an expired halt, and keeping at most \<open>WINDOW_SIZE\<close> messages), and reports
  a halt exactly when the buffer holds at least \<open>threshold\<close> messages and its last
  \<open>threshold\<close> messages pass the repetition test; then \<open>haltedUntil\<close> is set to
  \<open>now + haltDurationMs\<close>.
\<close>

theorem loop_detection_rule:
  "(length msgs < 2 \<longrightarrow> \<not> hasRepetition msgs)
   \<and> (2 \<le> length msgs \<longrightarrow>
        hasRepetition msgs
          = (card (set msgs) = 1 \<or> (\<forall>m \<in> set (tl msgs). jaccard (hd msgs) m \<ge> 8 / 10)))
   \<and> (st j = Some entry \<longrightarrow> now < haltedUntil entry \<longrightarrow>
        loopDetector_check cfg now j t st
          = (Inr \<lparr>loopDetected = True, isHalted = True,
                  haltRemainingMs = Some (haltedUntil entry - now)\<rparr>, st))
   \<and> ((case st j of None \<Rightarrow> 0 | Some entry \<Rightarrow> haltedUntil entry) \<le> now \<longrightarrow>
        (\<exists>r entry'. loopDetector_check cfg now j (Some body) st = (Inr r, st(j \<mapsto> entry'))
          \<and> messages entry'
              = (\<lambda>p. if WINDOW_SIZE < length p then tl p else p)
                  ((case st j of None \<Rightarrow> []
                    | Some entry \<Rightarrow> if 0 < haltedUntil entry then [] else messages entry)
                   @ [trim (toLowerCase body)])
          \<and> (isHalted r \<longleftrightarrow>
                loopDetectThreshold cfg \<le> int (length (messages entry'))
                \<and> hasRepetition (slice_from (- loopDetectThreshold cfg) (messages entry')))
          \<and> (isHalted r \<longrightarrow>
                loopDetected r \<and> haltedUntil entry' = now + haltDurationMs cfg
                \<and> haltRemainingMs r = Some (haltDurationMs cfg))
          \<and> (\<not> isHalted r \<longrightarrow> \<not> loopDetected r \<and> haltedUntil entry' \<le> now)))
   \<and> (1 \<le> k \<longrightarrow> k \<le> int (length xs) \<longrightarrow>
        slice_from (- k) xs = drop (length xs - nat k) xs)"
  using hasRepetition_short [of msgs] hasRepetition_rule [of msgs]
    loop_check_halted [of st j entry now cfg t] check_not_halted [of st j now cfg body]
    slice_last [of k xs]
  by blast

text \<open>
  C4 as stated fails: in the slice \<open>a b\<close>, \<open>a b\<close>, \<open>zzz\<close> all but one of the two compared
  messages are similar to the first, yet the test fails and the contact is not halted.
\<close>

theorem all_but_one_similar_counterexample:
  "hasRepetition_allButOne [''a b'', ''a b'', ''zzz'']
   \<and> \<not> hasRepetition [''a b'', ''a b'', ''zzz'']
   \<and> loopDetector_check cfg0 1000000 ''a@c.us'' (Some ''zzz'') loop2
       = (Inr \<lparr>loopDetected = False, isHalted = False, haltRemainingMs = None\<rparr>,
          Map.empty(''a@c.us'' \<mapsto> \<lparr>messages = [''a b'', ''a b'', ''zzz''], haltedUntil = 0\<rparr>))"
proof -
  have s: "split_ws ''a b'' = [''a'', ''b'']" "split_ws ''zzz'' = [''zzz'']"
    by (simp_all add: split_ws_def is_ws_def)
  have i: "set [''a'', ''b''] \<inter> set [''zzz''] = {}" "set [''a'', ''b''] \<inter> set [''a'', ''b''] = set [''a'', ''b'']"
    "set [''a'', ''b''] \<union> set [''a'', ''b''] = set [''a'', ''b'']"
    by auto
  have j: "jaccard ''a b'' ''a b'' = 1" "jaccard ''a b'' ''zzz'' = 0"
    unfolding jaccard_def s i by simp_all
  have a: "hasRepetition_allButOne [''a b'', ''a b'', ''zzz'']"
    by (simp add: hasRepetition_allButOne_def j)
  have b: "\<not> hasRepetition [''a b'', ''a b'', ''zzz'']"
    by (simp add: hasRepetition_def similar_def s SIMILARITY_THRESHOLD_def)
  have c: "loopDetector_check cfg0 1000000 ''a@c.us'' (Some ''zzz'') loop2
       = (Inr \<lparr>loopDetected = False, isHalted = False, haltRemainingMs = None\<rparr>,
          Map.empty(''a@c.us'' \<mapsto> \<lparr>messages = [''a b'', ''a b'', ''zzz''], haltedUntil = 0\<rparr>))"
    using b
    by (simp add: loopDetector_check_def loop2_def cfg0_def Let_def WINDOW_SIZE_def
          toLowerCase_def trim_def is_ws_def slice_from_def)
  show ?thesis using a b c by simp
qed


theorem loop_detection_rule_witness:
  "length [''a b''] < 2 \<and> \<not> hasRepetition [''a b'']
   \<and> 2 \<le> length [''a b c d e'', ''a b c d e f'', ''a b c d e'']
   \<and> hasRepetition [''a b c d e'', ''a b c d e f'', ''a b c d e'']
   \<and> (card (set [''a b c d e'', ''a b c d e f'', ''a b c d e'']) = 1
       \<or> (\<forall>m \<in> set (tl [''a b c d e'', ''a b c d e f'', ''a b c d e'']).
             jaccard (hd [''a b c d e'', ''a b c d e f'', ''a b c d e'']) m \<ge> 8 / 10))
   \<and> (case loop2 ''a@c.us'' of None \<Rightarrow> 0 | Some entry \<Rightarrow> haltedUntil entry) \<le> 1000000
   \<and> loopDetector_check cfg0 1000000 ''a@c.us'' (Some '' A b '') loop2
       = (Inr \<lparr>loopDetected = True, isHalted = True, haltRemainingMs = Some 600000\<rparr>, loop3)
   \<and> loop3 ''a@c.us'' = Some \<lparr>messages = [''a b'', ''a b'', ''a b''], haltedUntil = 1600000\<rparr>
   \<and> 1599999 < haltedUntil \<lparr>messages = [''a b'', ''a b'', ''a b''], haltedUntil = 1600000\<rparr>
   \<and> loopDetector_check cfg0 1599999 ''a@c.us'' (Some ''hello'') loop3
       = (Inr \<lparr>loopDetected = True, isHalted = True, haltRemainingMs = Some 1\<rparr>, loop3)
   \<and> (1::int) \<le> 3 \<and> 3 \<le> int (length [''x'', ''a b'', ''a b'', ''a b''])
   \<and> slice_from (- 3) [''x'', ''a b'', ''a b'', ''a b''] = [''a b'', ''a b'', ''a b'']"
proof -
  have r: "hasRepetition [''a b c d e'', ''a b c d e f'', ''a b c d e'']"
    by (simp add: hasRepetition_def similar_def split_ws_def is_ws_def SIMILARITY_THRESHOLD_def)
  have r3: "hasRepetition [''a b'', ''a b'', ''a b'']"
    by (simp add: hasRepetition_def)
  have c: "loopDetector_check cfg0 1000000 ''a@c.us'' (Some '' A b '') loop2
       = (Inr \<lparr>loopDetected = True, isHalted = True, haltRemainingMs = Some 600000\<rparr>, loop3)"
  proof -
    have n: "trim (toLowerCase '' A b '') = ''a b''" by code_simp
    show ?thesis
      using r3
      by (simp add: loopDetector_check_def loop2_def loop3_def cfg0_def Let_def WINDOW_SIZE_def
            n slice_from_def)
  qed
  have l: "loop3 ''a@c.us'' = Some \<lparr>messages = [''a b'', ''a b'', ''a b''], haltedUntil = 1600000\<rparr>"
      "(case loop2 ''a@c.us'' of None \<Rightarrow> 0 | Some entry \<Rightarrow> haltedUntil entry) \<le> 1000000"
    by (simp_all add: loop3_def loop2_def)
  have h: "1599999 < haltedUntil \<lparr>messages = [''a b'', ''a b'', ''a b''], haltedUntil = 1600000\<rparr>"
    by simp
  show ?thesis
    using loop_detection_rule [of "[''a b'']" loop3 "''a@c.us''"
        "\<lparr>messages = [''a b'', ''a b'', ''a b''], haltedUntil = 1600000\<rparr>" 1599999 cfg0 "Some ''hello''"
        "''x''" 3 "[''x'', ''a b'', ''a b'', ''a b'']"]
      loop_detection_rule [of "[''a b c d e'', ''a b c d e f'', ''a b c d e'']" loop2 "''a@c.us''"
        "\<lparr>messages = [], haltedUntil = 0\<rparr>" 1000000 cfg0 "Some ''hello''"
        "'' A b ''" 3 "[''x'', ''a b'', ''a b'', ''a b'']"]
      r c l h
    by simp
qed

section \<open>Properties of the follow-up tracker\<close>

lemma remindLoop_fold:
  "remindLoop dn rows (tbl, rs)
     = (fold stepTbl rows tbl, rs @ map (toReminder dn) (filter (\<lambda>f. reminded_count f < 3) rows))"
  by (induction rows arbitrary: tbl rs) (simp_all add: stepTbl_def)

lemma fu_id_applyRow: "fu_id (applyRow f) = fu_id f"
  by (simp add: applyRow_def)

lemma stepTbl_map:
  assumes "\<forall>f \<in> set tbl. fu_id f = fu_id r \<longrightarrow> f = r"
  shows "stepTbl r tbl = map (\<lambda>f. if f = r then applyRow f else f) tbl"
  using assms
  by (auto simp: stepTbl_def markReminded_def expire_def applyRow_def)

lemma fold_stepTbl:
  assumes "distinct (map fu_id rows)"
    and "\<forall>r \<in> set rows. \<forall>f \<in> set tbl. fu_id f = fu_id r \<longrightarrow> f = r"
  shows "fold stepTbl rows tbl = map (\<lambda>f. if f \<in> set rows then applyRow f else f) tbl"
  using assms
proof (induction rows arbitrary: tbl)
  case Nil
  then show ?case by simp
next
  case (Cons r rows)
  let ?tbl' = "map (\<lambda>f. if f = r then applyRow f else f) tbl"
  have s: "stepTbl r tbl = ?tbl'"
    using Cons.prems(2) by (intro stepTbl_map) simp
  have d: "distinct (map fu_id rows)" and nr: "fu_id r \<notin> fu_id ` set rows"
    using Cons.prems(1) by simp_all
  have c: "\<forall>r' \<in> set rows. \<forall>f \<in> set ?tbl'. fu_id f = fu_id r' \<longrightarrow> f = r'"
  proof (intro ballI impI)
    fix r' f assume r': "r' \<in> set rows" and f: "f \<in> set ?tbl'" and e: "fu_id f = fu_id r'"
    from f obtain g where g: "g \<in> set tbl" "f = (if g = r then applyRow g else g)" by auto
    show "f = r'"
    proof (cases "g = r")
      case True
      with g have "fu_id f = fu_id r" by (simp add: fu_id_applyRow)
      with e r' nr show ?thesis by force
    next
      case False
      with g have "f = g" by simp
      with g(1) e r' Cons.prems(2) show ?thesis by simp
    qed
  qed
  have "fold stepTbl (r # rows) tbl = fold stepTbl rows ?tbl'" by (simp add: s)
  also have "\<dots> = map (\<lambda>f. if f \<in> set rows then applyRow f else f) ?tbl'"
    using Cons.IH [OF d c] .
  also have "\<dots> = map (\<lambda>f. if f \<in> set (r # rows) then applyRow f else f) tbl"
  proof -
    have "applyRow r \<notin> set rows"
    proof
      assume "applyRow r \<in> set rows"
      then have "fu_id (applyRow r) \<in> fu_id ` set rows" by (rule imageI)
      with nr show False by (simp add: fu_id_applyRow)
    qed
    then show ?thesis by auto
  qed
  finally show ?case .
qed

lemma set_listOverdue: "set (listOverdue now tbl) = {f \<in> set tbl. overdue now f}"
  by (simp add: listOverdue_def)

lemma distinct_ids_listOverdue:
  assumes "distinct (map fu_id tbl)"
  shows "distinct (map fu_id (listOverdue now tbl))"
proof -
  have "distinct (map fu_id (filter (overdue now) tbl))"
    using assms by (rule distinct_map_filter)
  then show ?thesis
    by (simp add: listOverdue_def distinct_map)
qed

lemma getReminders_table:
  assumes "distinct (map fu_id tbl)"
  shows "fst (getReminders dn now tbl) = map (sweepRow now) tbl"
proof -
  have inj: "\<forall>f \<in> set tbl. \<forall>g \<in> set tbl. fu_id f = fu_id g \<longrightarrow> f = g"
    using assms by (meson distinct_map inj_onD)
  have c: "\<forall>r \<in> set (listOverdue now tbl). \<forall>f \<in> set tbl. fu_id f = fu_id r \<longrightarrow> f = r"
    using inj by (simp add: set_listOverdue)
  have "fst (getReminders dn now tbl) = fold stepTbl (listOverdue now tbl) tbl"
    by (simp add: getReminders_def remindLoop_fold)
  also have "\<dots> = map (\<lambda>f. if f \<in> set (listOverdue now tbl) then applyRow f else f) tbl"
    using fold_stepTbl [OF distinct_ids_listOverdue [OF assms] c] .
  also have "\<dots> = map (sweepRow now) tbl"
    by (rule map_cong) (simp_all add: set_listOverdue sweepRow_def applyRow_def)
  finally show ?thesis .
qed

lemma getReminders_reminders:
  "snd (getReminders dn now tbl)
     = map (toReminder dn) (filter (\<lambda>f. reminded_count f < 3) (listOverdue now tbl))"
  by (simp add: getReminders_def remindLoop_fold)


lemma fu_id_sweepRow: "fu_id (sweepRow now f) = fu_id f"
  by (simp add: sweepRow_def)

lemma count_sweepRow: "reminded_count f \<le> 3 \<Longrightarrow> reminded_count (sweepRow now f) \<le> 3"
  by (simp add: sweepRow_def)

lemma count_sweepRow_lower: "0 \<le> reminded_count f \<Longrightarrow> 0 \<le> reminded_count (sweepRow now f)"
  by (simp add: sweepRow_def)

lemma not_overdue_expired: "\<not> overdue now' (f\<lparr>status := Expired\<rparr>)"
  by (simp add: overdue_def)

lemma foldr_max_ge: "f \<in> set tbl \<Longrightarrow> fu_id f \<le> foldr max (map fu_id tbl) 0"
  by (induction tbl) auto

lemma nextId_fresh: "nextId tbl \<notin> fu_id ` set tbl"
proof
  assume "nextId tbl \<in> fu_id ` set tbl"
  then obtain f where "f \<in> set tbl" "fu_id f = nextId tbl" by auto
  with foldr_max_ge [of f tbl] show False by (simp add: nextId_def)
qed

lemma followUpTables_invariant:
  "tbl \<in> followUpTables \<Longrightarrow>
     distinct (map fu_id tbl) \<and> (\<forall>f \<in> set tbl. 0 \<le> reminded_count f \<and> reminded_count f \<le> 3)"
proof (induction rule: followUpTables.induct)
  case empty
  then show ?case by simp
next
  case (created tbl j descr st prio due)
  then show ?case using nextId_fresh [of tbl] by (auto simp: fu_create_def)
next
  case (resolved tbl i)
  have m: "map fu_id (resolve i tbl) = map fu_id tbl"
    by (induction tbl) (simp_all add: resolve_def)
  have "\<forall>f \<in> set (resolve i tbl). 0 \<le> reminded_count f \<and> reminded_count f \<le> 3"
    using resolved.IH by (auto simp: resolve_def)
  with resolved.IH m show ?case by simp
next
  case (swept tbl displayName now)
  then have d: "distinct (map fu_id tbl)" by simp
  have m: "map fu_id (map (sweepRow now) tbl) = map fu_id tbl"
    by (induction tbl) (simp_all add: fu_id_sweepRow)
  have "\<forall>f \<in> set (map (sweepRow now) tbl). 0 \<le> reminded_count f \<and> reminded_count f \<le> 3"
    using swept.IH by (auto simp: count_sweepRow count_sweepRow_lower)
  with d m show ?case
    by (simp only: getReminders_table [OF d])
qed

text \<open>
  C9. In every table that \<open>create\<close>, \<open>resolve\<close> and the overdue sweep can produce from the
  empty table, the keys are distinct and no \<open>reminded_count\<close> exceeds 3. One sweep over a
  table with distinct keys changes exactly the overdue unresolved rows: a row whose count
  is below 3 is reminded (its reminder is returned, its status becomes \<open>reminded\<close>, its
  count goes up by one); a row whose count has reached 3 is set to \<open>expired\<close> instead, gets
  no reminder, keeps its count and is never overdue again. The reminders returned are
  those of the overdue rows with a count below 3, in the order of the query.
\<close>

theorem follow_up_reminders_bounded:
  "(tbl \<in> followUpTables \<longrightarrow>
      distinct (map fu_id tbl) \<and> (\<forall>f \<in> set tbl. reminded_count f \<le> 3))
   \<and> (distinct (map fu_id tbl) \<longrightarrow>
        fst (getReminders dn now tbl) = map (sweepRow now) tbl
      \<and> snd (getReminders dn now tbl)
          = map (toReminder dn) (filter (\<lambda>f. reminded_count f < 3) (listOverdue now tbl))
      \<and> set (listOverdue now tbl) = {f \<in> set tbl. overdue now f}
      \<and> ((\<forall>f \<in> set tbl. reminded_count f \<le> 3) \<longrightarrow>
           (\<forall>f \<in> set (fst (getReminders dn now tbl)). reminded_count f \<le> 3))
      \<and> (\<forall>f \<in> set tbl. overdue now f \<longrightarrow> reminded_count f < 3 \<longrightarrow>
             sweepRow now f = f\<lparr>status := Reminded, reminded_count := reminded_count f + 1\<rparr>
           \<and> toReminder dn f \<in> set (snd (getReminders dn now tbl)))
      \<and> (\<forall>f \<in> set tbl. overdue now f \<longrightarrow> 3 \<le> reminded_count f \<longrightarrow>
             sweepRow now f = f\<lparr>status := Expired\<rparr>
           \<and> (\<forall>now'. \<not> overdue now' (sweepRow now f))
           \<and> f \<notin> set (filter (\<lambda>f. reminded_count f < 3) (listOverdue now tbl)))
      \<and> (\<forall>f \<in> set tbl. \<not> overdue now f \<longrightarrow> sweepRow now f = f))"
proof -
  have a: "distinct (map fu_id tbl) \<and> (\<forall>f \<in> set tbl. reminded_count f \<le> 3)"
    if "tbl \<in> followUpTables"
    using followUpTables_invariant [OF that] by simp
  have b: "\<forall>f \<in> set (fst (getReminders dn now tbl)). reminded_count f \<le> 3"
    if "distinct (map fu_id tbl)" "\<forall>f \<in> set tbl. reminded_count f \<le> 3"
    using that by (auto simp: getReminders_table count_sweepRow)
  have c: "sweepRow now f = f\<lparr>status := Reminded, reminded_count := reminded_count f + 1\<rparr>
           \<and> toReminder dn f \<in> set (snd (getReminders dn now tbl))"
    if "f \<in> set tbl" "overdue now f" "reminded_count f < 3" for f
    using that by (simp add: sweepRow_def getReminders_reminders set_listOverdue)
  have d: "sweepRow now f = f\<lparr>status := Expired\<rparr>
           \<and> (\<forall>now'. \<not> overdue now' (sweepRow now f))
           \<and> f \<notin> set (filter (\<lambda>f. reminded_count f < 3) (listOverdue now tbl))"
    if "f \<in> set tbl" "overdue now f" "3 \<le> reminded_count f" for f
    using that by (simp add: sweepRow_def not_overdue_expired)
  have e: "sweepRow now f = f" if "\<not> overdue now f" for f
    using that by (simp add: sweepRow_def)
  show ?thesis
    using a b c d e getReminders_table [of tbl dn now] getReminders_reminders [of dn now tbl]
      set_listOverdue [of now tbl]
    by blast
qed


lemma sweep_once:
  "getReminders (\<lambda>j. None) 200 followups0
     = ([\<lparr>fu_id = 1, fu_jid = ''a@c.us'', description = ''call back'', status = Reminded,
          priority = 2, due_at = Some 100, reminded_count = 1\<rparr>,
         \<lparr>fu_id = 2, fu_jid = ''b@c.us'', description = ''send file'', status = Expired,
          priority = 1, due_at = Some 50, reminded_count = 3\<rparr>,
         \<lparr>fu_id = 3, fu_jid = ''c@c.us'', description = ''later'', status = Pending,
          priority = 3, due_at = Some 900, reminded_count = 0\<rparr>],
        [\<lparr>r_jid = ''a@c.us'', r_description = ''call back'', r_due_at = Some 100,
          r_display_name = None, r_priority = 2\<rparr>])"
  by code_simp

lemma sweep_four:
  "getReminders (\<lambda>j. None) 200 (fst (getReminders (\<lambda>j. None) 200
      (fst (getReminders (\<lambda>j. None) 200 (fst (getReminders (\<lambda>j. None) 200 followups0))))))
     = ([\<lparr>fu_id = 1, fu_jid = ''a@c.us'', description = ''call back'', status = Expired,
          priority = 2, due_at = Some 100, reminded_count = 3\<rparr>,
         \<lparr>fu_id = 2, fu_jid = ''b@c.us'', description = ''send file'', status = Expired,
          priority = 1, due_at = Some 50, reminded_count = 3\<rparr>,
         \<lparr>fu_id = 3, fu_jid = ''c@c.us'', description = ''later'', status = Pending,
          priority = 3, due_at = Some 900, reminded_count = 0\<rparr>],
        [])"
  by code_simp

theorem follow_up_reminders_bounded_witness:
  "snd (fu_create ''a@c.us'' ''call back'' None (Some 2) (Some 100) []) \<in> followUpTables
   \<and> reminded_count (hd (snd (fu_create ''a@c.us'' ''call back'' None (Some 2) (Some 100) []))) \<le> 3
   \<and> distinct (map fu_id followups0)
   \<and> hd followups0 \<in> set followups0 \<and> overdue 200 (hd followups0) \<and> reminded_count (hd followups0) < 3
   \<and> hd (tl followups0) \<in> set followups0 \<and> overdue 200 (hd (tl followups0))
   \<and> 3 \<le> reminded_count (hd (tl followups0))
   \<and> sweepRow 200 (hd (tl followups0)) = (hd (tl followups0))\<lparr>status := Expired\<rparr>
   \<and> map reminded_count (fst (getReminders (\<lambda>j. None) 200 followups0)) = [1, 3, 0]
   \<and> map status (fst (getReminders (\<lambda>j. None) 200 followups0)) = [Reminded, Expired, Pending]
   \<and> map r_jid (snd (getReminders (\<lambda>j. None) 200 followups0)) = [''a@c.us'']
   \<and> map reminded_count (fst (getReminders (\<lambda>j. None) 200 (fst (getReminders (\<lambda>j. None) 200
        (fst (getReminders (\<lambda>j. None) 200 (fst (getReminders (\<lambda>j. None) 200 followups0)))))))) = [3, 3, 0]
   \<and> map status (fst (getReminders (\<lambda>j. None) 200 (fst (getReminders (\<lambda>j. None) 200
        (fst (getReminders (\<lambda>j. None) 200 (fst (getReminders (\<lambda>j. None) 200 followups0)))))))) = [Expired, Expired, Pending]
   \<and> snd (getReminders (\<lambda>j. None) 200 (fst (getReminders (\<lambda>j. None) 200
        (fst (getReminders (\<lambda>j. None) 200 (fst (getReminders (\<lambda>j. None) 200 followups0))))))) = []"
proof -
  have m: "snd (fu_create ''a@c.us'' ''call back'' None (Some 2) (Some 100) []) \<in> followUpTables"
    by (rule followUpTables.created) (rule followUpTables.empty)
  have c: "snd (fu_create ''a@c.us'' ''call back'' None (Some 2) (Some 100) [])
      = [\<lparr>fu_id = 1, fu_jid = ''a@c.us'', description = ''call back'', status = Pending,
       priority = 2, due_at = Some 100, reminded_count = 0\<rparr>]"
    by (simp add: fu_create_def nextId_def)
  have d: "distinct (map fu_id followups0)" by (simp add: followups0_def)
  have o: "hd followups0 \<in> set followups0" "overdue 200 (hd followups0)" "reminded_count (hd followups0) < 3"
      "hd (tl followups0) \<in> set followups0" "overdue 200 (hd (tl followups0))"
      "3 \<le> reminded_count (hd (tl followups0))"
    by (simp_all add: followups0_def overdue_def)
  have t1: "\<forall>f \<in> set (snd (fu_create ''a@c.us'' ''call back'' None (Some 2) (Some 100) [])).
              reminded_count f \<le> 3"
    using follow_up_reminders_bounded
        [of "snd (fu_create ''a@c.us'' ''call back'' None (Some 2) (Some 100) [])" "\<lambda>j. None" 200] m
    by blast
  have t2: "sweepRow 200 (hd (tl followups0)) = (hd (tl followups0))\<lparr>status := Expired\<rparr>"
    using follow_up_reminders_bounded [of followups0 "\<lambda>j. None" 200] d o(4,5,6) by blast
  have t3: "reminded_count (hd (snd (fu_create ''a@c.us'' ''call back'' None (Some 2) (Some 100) []))) \<le> 3"
    using t1 by (simp add: c)
  have f1: "map reminded_count (fst (getReminders (\<lambda>j. None) 200 followups0)) = [1, 3, 0]
      \<and> map status (fst (getReminders (\<lambda>j. None) 200 followups0)) = [Reminded, Expired, Pending]
      \<and> map r_jid (snd (getReminders (\<lambda>j. None) 200 followups0)) = [''a@c.us'']"
    by (simp add: sweep_once)
  have f4: "map reminded_count (fst (getReminders (\<lambda>j. None) 200 (fst (getReminders (\<lambda>j. None) 200
        (fst (getReminders (\<lambda>j. None) 200 (fst (getReminders (\<lambda>j. None) 200 followups0)))))))) = [3, 3, 0]
   \<and> map status (fst (getReminders (\<lambda>j. None) 200 (fst (getReminders (\<lambda>j. None) 200
        (fst (getReminders (\<lambda>j. None) 200 (fst (getReminders (\<lambda>j. None) 200 followups0)))))))) = [Expired, Expired, Pending]
   \<and> snd (getReminders (\<lambda>j. None) 200 (fst (getReminders (\<lambda>j. None) 200
        (fst (getReminders (\<lambda>j. None) 200 (fst (getReminders (\<lambda>j. None) 200 followups0))))))) = []"
    by (simp add: sweep_four)
  show ?thesis
    using m t3 d o t2 f1 f4 by blast
qed

section \<open>Properties of the session cache\<close>

lemma oldestScan_acc:
  "oldestScan ss (oj, ot) = (oj', ot') \<Longrightarrow>
     (oj' = oj \<and> ot' = ot
        \<and> (\<forall>(k, e) \<in> set ss. case ot of None \<Rightarrow> False | Some t \<Rightarrow> t \<le> lastAccess e))
   \<or> (\<exists>pre v e post. ss = pre @ (v, e) # post \<and> oj' = Some v \<and> ot' = Some (lastAccess e)
        \<and> (\<forall>(k, e') \<in> set pre. lastAccess e < lastAccess e')
        \<and> (\<forall>(k, e') \<in> set post. lastAccess e \<le> lastAccess e')
        \<and> (case ot of None \<Rightarrow> True | Some t \<Rightarrow> lastAccess e < t))"
proof (induction ss arbitrary: oj ot)
  case Nil
  then show ?case by simp
next
  case (Cons a rest)
  obtain j entry where a: "a = (j, entry)" by (cases a)
  show ?case
  proof (cases "case ot of None \<Rightarrow> True | Some t \<Rightarrow> lastAccess entry < t")
    case True
    with Cons.prems a have r: "oldestScan rest (Some j, Some (lastAccess entry)) = (oj', ot')"
      by simp
    from Cons.IH [OF r] show ?thesis
    proof (elim disjE conjE exE)
      assume "oj' = Some j" "ot' = Some (lastAccess entry)"
        "\<forall>(k, e) \<in> set rest. case Some (lastAccess entry) of None \<Rightarrow> False | Some t \<Rightarrow> t \<le> lastAccess e"
      then have "a # rest = [] @ (j, entry) # rest \<and> oj' = Some j \<and> ot' = Some (lastAccess entry)
        \<and> (\<forall>(k, e') \<in> set []. lastAccess entry < lastAccess e')
        \<and> (\<forall>(k, e') \<in> set rest. lastAccess entry \<le> lastAccess e')
        \<and> (case ot of None \<Rightarrow> True | Some t \<Rightarrow> lastAccess entry < t)"
        using a True by auto
      then show ?thesis by blast
    next
      fix pre v e post
      assume h: "rest = pre @ (v, e) # post" "oj' = Some v" "ot' = Some (lastAccess e)"
        "\<forall>(k, e') \<in> set pre. lastAccess e < lastAccess e'"
        "\<forall>(k, e') \<in> set post. lastAccess e \<le> lastAccess e'"
        "case Some (lastAccess entry) of None \<Rightarrow> True | Some t \<Rightarrow> lastAccess e < t"
      then have "a # rest = (a # pre) @ (v, e) # post \<and> oj' = Some v \<and> ot' = Some (lastAccess e)
        \<and> (\<forall>(k, e') \<in> set (a # pre). lastAccess e < lastAccess e')
        \<and> (\<forall>(k, e') \<in> set post. lastAccess e \<le> lastAccess e')
        \<and> (case ot of None \<Rightarrow> True | Some t \<Rightarrow> lastAccess e < t)"
        using a True by (auto split: option.splits)
      then show ?thesis by blast
    qed
  next
    case False
    then obtain t where t: "ot = Some t" "t \<le> lastAccess entry" by (auto split: option.splits)
    with Cons.prems a have r: "oldestScan rest (oj, ot) = (oj', ot')" by simp
    from Cons.IH [OF r] show ?thesis
    proof (elim disjE conjE exE)
      assume "oj' = oj" "ot' = ot"
        "\<forall>(k, e) \<in> set rest. case ot of None \<Rightarrow> False | Some t \<Rightarrow> t \<le> lastAccess e"
      then show ?thesis using a t by auto
    next
      fix pre v e post
      assume h: "rest = pre @ (v, e) # post" "oj' = Some v" "ot' = Some (lastAccess e)"
        "\<forall>(k, e') \<in> set pre. lastAccess e < lastAccess e'"
        "\<forall>(k, e') \<in> set post. lastAccess e \<le> lastAccess e'"
        "case ot of None \<Rightarrow> True | Some t \<Rightarrow> lastAccess e < t"
      then have "a # rest = (a # pre) @ (v, e) # post \<and> oj' = Some v \<and> ot' = Some (lastAccess e)
        \<and> (\<forall>(k, e') \<in> set (a # pre). lastAccess e < lastAccess e')
        \<and> (\<forall>(k, e') \<in> set post. lastAccess e \<le> lastAccess e')
        \<and> (case ot of None \<Rightarrow> True | Some t \<Rightarrow> lastAccess e < t)"
        using a t by auto
      then show ?thesis by blast
    qed
  qed
qed

lemma oldestScan_first_min:
  assumes "ss \<noteq> []"
  shows "\<exists>pre v e post. ss = pre @ (v, e) # post \<and> fst (oldestScan ss (None, None)) = Some v
        \<and> (\<forall>(k, e') \<in> set pre. lastAccess e < lastAccess e')
        \<and> (\<forall>(k, e') \<in> set post. lastAccess e \<le> lastAccess e')"
proof -
  obtain oj' ot' where r: "oldestScan ss (None, None) = (oj', ot')"
    by (cases "oldestScan ss (None, None)")
  from assms obtain k0 e0 where m: "(k0, e0) \<in> set ss" by (cases ss) auto
  from oldestScan_acc [OF r] show ?thesis
  proof (elim disjE conjE exE)
    assume "\<forall>(k, e) \<in> set ss. case None of None \<Rightarrow> False | Some t \<Rightarrow> t \<le> lastAccess e"
    with m have False by (auto simp del: split_paired_All)
    then show ?thesis ..
  next
    fix pre v e post
    assume "ss = pre @ (v, e) # post" "oj' = Some v"
        "\<forall>(k, e') \<in> set pre. lastAccess e < lastAccess e'"
        "\<forall>(k, e') \<in> set post. lastAccess e \<le> lastAccess e'"
    then have "ss = pre @ (v, e) # post \<and> fst (oldestScan ss (None, None)) = Some v
        \<and> (\<forall>(k, e') \<in> set pre. lastAccess e < lastAccess e')
        \<and> (\<forall>(k, e') \<in> set post. lastAccess e \<le> lastAccess e')"
      using r by simp
    then show ?thesis by (intro exI)
  qed
qed

lemma update_fresh: "k \<notin> fst ` set al \<Longrightarrow> AList.update k v al = al @ [(k, v)]"
  by (induction al) auto

lemma delete_append: "AList.delete k (xs @ ys) = AList.delete k xs @ AList.delete k ys"
  by (induction xs) simp_all

lemma delete_split:
  assumes "distinct (map fst (pre @ (v, e) # post))"
  shows "AList.delete v (pre @ (v, e) # post) = pre @ post"
proof -
  from assms have "v \<notin> fst ` set pre" "v \<notin> fst ` set post" by auto
  then have "AList.delete v pre = pre" "AList.delete v post = post"
    by simp_all
  then show ?thesis by (simp add: delete_append)
qed

lemma evictOldest_first_min:
  assumes "ss \<noteq> []" "[] \<notin> fst ` set ss" "distinct (map fst ss)"
  shows "\<exists>pre v e post. ss = pre @ (v, e) # post \<and> evictOldest ss = pre @ post
        \<and> (\<forall>(k, e') \<in> set pre. lastAccess e < lastAccess e')
        \<and> (\<forall>(k, e') \<in> set post. lastAccess e \<le> lastAccess e')"
proof -
  from oldestScan_first_min [OF assms(1)]
  obtain pre v e post where h: "ss = pre @ (v, e) # post" "fst (oldestScan ss (None, None)) = Some v"
        "\<forall>(k, e') \<in> set pre. lastAccess e < lastAccess e'"
        "\<forall>(k, e') \<in> set post. lastAccess e \<le> lastAccess e'"
    by (elim exE conjE)
  have "v \<in> fst ` set ss" unfolding h(1) by simp
  with assms(2) have "v \<noteq> []" by metis
  with h(2) have "evictOldest ss = AList.delete v ss" by (simp add: evictOldest_def)
  also have "\<dots> = pre @ post" using assms(3) unfolding h(1) by (rule delete_split)
  finally have "ss = pre @ (v, e) # post \<and> evictOldest ss = pre @ post
        \<and> (\<forall>(k, e') \<in> set pre. lastAccess e < lastAccess e')
        \<and> (\<forall>(k, e') \<in> set post. lastAccess e \<le> lastAccess e')"
    using h by simp
  then show ?thesis by (intro exI)
qed


lemma set_update_cases:
  "(k', e') \<in> set (AList.update k v al) \<Longrightarrow> (k', e') \<in> set al \<or> (k', e') = (k, v)"
  by (induction al) (auto split: if_splits)

lemma length_update_present: "k \<in> fst ` set al \<Longrightarrow> length (AList.update k v al) = length al"
  by (induction al) auto

lemma getEntry_hit:
  "map_of ss j = Some e \<Longrightarrow>
   getEntry bsp now j p ss = (e\<lparr>lastAccess := now\<rparr>, AList.update j (e\<lparr>lastAccess := now\<rparr>) ss)"
  by (simp add: getEntry_def)

lemma getEntry_miss_fst:
  "map_of ss j = None \<Longrightarrow>
   fst (getEntry bsp now j p ss)
     = \<lparr>history = [], lastAccess = now, turnCount = 0, systemInstruction = bsp p\<rparr>"
  by (simp add: getEntry_def Let_def)

lemma getEntry_miss_room:
  assumes "map_of ss j = None" "length ss < MAX_SESSIONS"
  shows "snd (getEntry bsp now j p ss)
     = ss @ [(j, \<lparr>history = [], lastAccess = now, turnCount = 0, systemInstruction = bsp p\<rparr>)]"
proof -
  from assms(1) have "j \<notin> fst ` set ss" by (simp add: map_of_eq_None_iff)
  then show ?thesis using assms by (simp add: getEntry_def Let_def update_fresh)
qed

lemma getEntry_miss_evicts:
  assumes "map_of ss j = None" "length ss = MAX_SESSIONS"
    and "distinct (map fst ss)" "[] \<notin> fst ` set ss" "j \<noteq> []"
  shows "\<exists>pre v e post.
          ss @ [(j, \<lparr>history = [], lastAccess = now, turnCount = 0, systemInstruction = bsp p\<rparr>)]
            = pre @ (v, e) # post
        \<and> snd (getEntry bsp now j p ss) = pre @ post
        \<and> (\<forall>(k, e') \<in> set pre. lastAccess e < lastAccess e')
        \<and> (\<forall>(k, e') \<in> set post. lastAccess e \<le> lastAccess e')"
proof -
  let ?new = "\<lparr>history = [], lastAccess = now, turnCount = 0, systemInstruction = bsp p\<rparr>"
  let ?ss1 = "ss @ [(j, ?new)]"
  from assms(1) have nj: "j \<notin> fst ` set ss" by (simp add: map_of_eq_None_iff)
  have g: "snd (getEntry bsp now j p ss) = evictOldest ?ss1"
    using assms(1,2) nj by (simp add: getEntry_def Let_def update_fresh)
  have d1: "distinct (map fst ?ss1)" using assms(3) nj by simp
  have e1: "[] \<notin> fst ` set ?ss1" using assms(4,5) by auto
  have n1: "?ss1 \<noteq> []" by simp
  from evictOldest_first_min [OF n1 e1 d1] show ?thesis unfolding g .
qed

lemma getEntry_miss_full:
  assumes "map_of ss j = None" "length ss = MAX_SESSIONS"
    and "distinct (map fst ss)" "[] \<notin> fst ` set ss" "j \<noteq> []"
    and "\<exists>(k, e) \<in> set ss. lastAccess e \<le> now"
  shows "\<exists>pre v e post. ss = pre @ (v, e) # post
        \<and> snd (getEntry bsp now j p ss)
            = pre @ post @ [(j, \<lparr>history = [], lastAccess = now, turnCount = 0,
                                  systemInstruction = bsp p\<rparr>)]
        \<and> (\<forall>(k, e') \<in> set pre. lastAccess e < lastAccess e')
        \<and> (\<forall>(k, e') \<in> set post. lastAccess e \<le> lastAccess e')"
proof -
  let ?new = "\<lparr>history = [], lastAccess = now, turnCount = 0, systemInstruction = bsp p\<rparr>"
  from getEntry_miss_evicts [OF assms(1-5), of now bsp p]
  obtain pre v e post' where h: "ss @ [(j, ?new)] = pre @ (v, e) # post'"
        "snd (getEntry bsp now j p ss) = pre @ post'"
        "\<forall>(k, e') \<in> set pre. lastAccess e < lastAccess e'"
        "\<forall>(k, e') \<in> set post'. lastAccess e \<le> lastAccess e'"
    by (elim exE conjE)
  from assms(6) obtain k0 e0 where m: "(k0, e0) \<in> set ss" "lastAccess e0 \<le> now" by auto
  have "post' \<noteq> []"
  proof
    assume "post' = []"
    with h(1) have "ss = pre" "(v, e) = (j, ?new)" by simp_all
    then have le: "lastAccess e = now" by simp
    from m(1) h(3) \<open>ss = pre\<close> have "lastAccess e < lastAccess e0" by auto
    with m(2) le show False by simp
  qed
  then obtain post y where py: "post' = post @ [y]" by (cases post' rule: rev_cases) auto
  with h(1) have "ss @ [(j, ?new)] = (pre @ (v, e) # post) @ [y]" by simp
  then have sy: "ss = pre @ (v, e) # post" "y = (j, ?new)" by simp_all
  have "ss = pre @ (v, e) # post
        \<and> snd (getEntry bsp now j p ss) = pre @ post @ [(j, ?new)]
        \<and> (\<forall>(k, e') \<in> set pre. lastAccess e < lastAccess e')
        \<and> (\<forall>(k, e') \<in> set post. lastAccess e \<le> lastAccess e')"
    using sy h(2,3,4) py by simp
  then show ?thesis by (intro exI)
qed

lemma getEntry_new_evicted:
  assumes "map_of ss j = None" "length ss = MAX_SESSIONS"
    and "distinct (map fst ss)" "[] \<notin> fst ` set ss" "j \<noteq> []"
    and "\<forall>(k, e) \<in> set ss. now < lastAccess e"
  shows "snd (getEntry bsp now j p ss) = ss"
proof -
  let ?new = "\<lparr>history = [], lastAccess = now, turnCount = 0, systemInstruction = bsp p\<rparr>"
  from getEntry_miss_evicts [OF assms(1-5), of now bsp p]
  obtain pre v e post' where h: "ss @ [(j, ?new)] = pre @ (v, e) # post'"
        "snd (getEntry bsp now j p ss) = pre @ post'"
        "\<forall>(k, e') \<in> set pre. lastAccess e < lastAccess e'"
        "\<forall>(k, e') \<in> set post'. lastAccess e \<le> lastAccess e'"
    by (elim exE conjE)
  have "post' = []"
  proof (rule ccontr)
    assume "post' \<noteq> []"
    then obtain post y where py: "post' = post @ [y]" by (cases post' rule: rev_cases) auto
    with h(1) have "ss @ [(j, ?new)] = (pre @ (v, e) # post) @ [y]" by simp
    then have sy: "ss = pre @ (v, e) # post" "y = (j, ?new)" by simp_all
    from sy(1) have "(v, e) \<in> set ss" by simp
    with assms(6) have "now < lastAccess e" by auto
    moreover from py sy(2) h(4) have "lastAccess e \<le> now" by auto
    ultimately show False by simp
  qed
  with h(1,2) show ?thesis by simp
qed

lemma oldestScan_head_empty:
  assumes "\<forall>(k, e) \<in> set rest. lastAccess e0 \<le> lastAccess e"
  shows "evictOldest (([], e0) # rest) = ([], e0) # rest"
proof -
  obtain oj' ot' where r: "oldestScan rest (Some [], Some (lastAccess e0)) = (oj', ot')"
    by (cases "oldestScan rest (Some [], Some (lastAccess e0))")
  from oldestScan_acc [OF r] have "oj' = Some []"
  proof (elim disjE conjE exE)
    assume "oj' = Some []" then show ?thesis .
  next
    fix pre v e post
    assume "rest = pre @ (v, e) # post"
      "case Some (lastAccess e0) of None \<Rightarrow> True | Some t \<Rightarrow> lastAccess e < t"
    then have "(v, e) \<in> set rest" "lastAccess e < lastAccess e0" by simp_all
    with assms show ?thesis by auto
  qed
  with r show ?thesis by (simp add: evictOldest_def)
qed

lemma getEntry_empty_jid_oldest:
  assumes "map_of (([], e0) # rest) j = None" "length (([], e0) # rest) = MAX_SESSIONS"
    and "\<forall>(k, e) \<in> set rest. lastAccess e0 \<le> lastAccess e" "lastAccess e0 \<le> now"
  shows "snd (getEntry bsp now j p (([], e0) # rest))
     = ([], e0) # rest @ [(j, \<lparr>history = [], lastAccess = now, turnCount = 0,
                                 systemInstruction = bsp p\<rparr>)]"
proof -
  let ?new = "\<lparr>history = [], lastAccess = now, turnCount = 0, systemInstruction = bsp p\<rparr>"
  let ?ss = "([], e0) # rest"
  from assms(1) have nj: "j \<notin> fst ` set ?ss" by (rule map_of_eq_None_iff [THEN iffD1])
  have g: "snd (getEntry bsp now j p ?ss) = evictOldest (?ss @ [(j, ?new)])"
    using assms(1,2) update_fresh [OF nj, of ?new] by (simp add: getEntry_def Let_def)
  have "\<forall>(k, e) \<in> set (rest @ [(j, ?new)]). lastAccess e0 \<le> lastAccess e"
    using assms(3,4) by auto
  from oldestScan_head_empty [OF this] g show ?thesis by simp
qed

lemma map_of_snoc_fresh: "k \<notin> fst ` set al \<Longrightarrow> map_of (al @ [(k, v)]) k = Some v"
  by (induction al) auto

lemma cacheBounded_update:
  assumes "cacheBounded ss" "k \<in> fst ` set ss"
  shows "cacheBounded (AList.update k v ss)"
proof -
  have "fst ` set (AList.update k v ss) = fst ` set ss" using assms(2) by (auto simp: dom_update)
  then show ?thesis using assms by (simp add: cacheBounded_def distinct_update length_update_present)
qed

lemma getEntry_bounded:
  assumes "cacheBounded ss" "j \<noteq> []"
  shows "cacheBounded (snd (getEntry bsp now j p ss))"
proof (cases "map_of ss j")
  case (Some e)
  then have "(j, e) \<in> set ss" by (rule map_of_SomeD)
  then have k: "j \<in> fst ` set ss" by force
  from cacheBounded_update [OF assms(1) k] getEntry_hit [OF Some, of bsp now p]
  show ?thesis by simp
next
  case None
  let ?new = "\<lparr>history = [], lastAccess = now, turnCount = 0, systemInstruction = bsp p\<rparr>"
  from None have nj: "j \<notin> fst ` set ss" by (simp add: map_of_eq_None_iff)
  show ?thesis
  proof (cases "length ss < MAX_SESSIONS")
    case True
    have g: "snd (getEntry bsp now j p ss) = ss @ [(j, ?new)]"
      using None True by (rule getEntry_miss_room)
    show ?thesis unfolding g using assms True nj by (auto simp: cacheBounded_def)
  next
    case False
    with assms(1) have full: "length ss = MAX_SESSIONS" by (simp add: cacheBounded_def)
    from assms(1) have inv: "distinct (map fst ss)" "[] \<notin> fst ` set ss"
      by (simp_all add: cacheBounded_def)
    from getEntry_miss_evicts [OF None full inv assms(2), of now bsp p]
    obtain pre v e post where h: "ss @ [(j, ?new)] = pre @ (v, e) # post"
        "snd (getEntry bsp now j p ss) = pre @ post"
      by (elim exE conjE)
    have d: "distinct (map fst (ss @ [(j, ?new)]))" using inv(1) nj by simp
    have e: "[] \<notin> fst ` set (ss @ [(j, ?new)])" using inv(2) assms(2) by auto
    have l: "length (ss @ [(j, ?new)]) = Suc MAX_SESSIONS" using full by simp
    from d e l show ?thesis unfolding h cacheBounded_def by auto
  qed
qed

lemma getEntry_keeps:
  assumes "cacheBounded ss" "j \<noteq> []"
    and "map_of ss j \<noteq> None \<or> length ss < MAX_SESSIONS \<or> (\<exists>(k, e) \<in> set ss. lastAccess e \<le> now)"
  shows "map_of (snd (getEntry bsp now j p ss)) j = Some (fst (getEntry bsp now j p ss))"
proof (cases "map_of ss j")
  case (Some e)
  from getEntry_hit [OF Some, of bsp now p] show ?thesis by (simp add: update_conv')
next
  case None
  let ?new = "\<lparr>history = [], lastAccess = now, turnCount = 0, systemInstruction = bsp p\<rparr>"
  from None have nj: "j \<notin> fst ` set ss" by (simp add: map_of_eq_None_iff)
  have f: "fst (getEntry bsp now j p ss) = ?new" using None by (rule getEntry_miss_fst)
  show ?thesis
  proof (cases "length ss < MAX_SESSIONS")
    case True
    have g: "snd (getEntry bsp now j p ss) = ss @ [(j, ?new)]"
      using None True by (rule getEntry_miss_room)
    have m: "map_of (ss @ [(j, ?new)]) j = Some ?new" using nj by (rule map_of_snoc_fresh)
    show ?thesis unfolding g f using m .
  next
    case False
    with assms(1) have full: "length ss = MAX_SESSIONS" by (simp add: cacheBounded_def)
    from assms(1) have inv: "distinct (map fst ss)" "[] \<notin> fst ` set ss"
      by (simp_all add: cacheBounded_def)
    from assms(3) None False have ex: "\<exists>(k, e) \<in> set ss. lastAccess e \<le> now" by simp
    from getEntry_miss_full [OF None full inv assms(2) ex, of bsp p]
    obtain pre v e post where h: "ss = pre @ (v, e) # post"
        "snd (getEntry bsp now j p ss) = pre @ post @ [(j, ?new)]"
      by (elim exE conjE)
    have nj': "j \<notin> fst ` set (pre @ post)" using nj unfolding h(1) by auto
    have "map_of ((pre @ post) @ [(j, ?new)]) j = Some ?new" using nj' by (rule map_of_snoc_fresh)
    then have m: "map_of (pre @ post @ [(j, ?new)]) j = Some ?new" by (simp only: append_assoc)
    show ?thesis unfolding h(2) f using m .
  qed
qed

lemma reply_bounded:
  assumes "cacheBounded ss" "j \<noteq> []"
  shows "cacheBounded (snd (reply bsp nKeys attempts now now2 j p ss))"
proof -
  obtain entry ss1 where g: "getEntry bsp now j p ss = (entry, ss1)"
    by (cases "getEntry bsp now j p ss")
  from getEntry_bounded [OF assms, of bsp now p] g have b: "cacheBounded ss1" by simp
  have u: "cacheBounded (AList.update j x ss1)" if "map_of ss1 j = Some entry" for x
  proof -
    from that have "(j, entry) \<in> set ss1" by (rule map_of_SomeD)
    then have "j \<in> fst ` set ss1" by force
    from cacheBounded_update [OF b this] show ?thesis .
  qed
  show ?thesis
  proof (cases "tryKeys (if nKeys = 0 then 1 else nKeys) 0 attempts None")
    case (Inl err)
    then show ?thesis using g b by (simp add: reply_def Let_def)
  next
    case (Inr r)
    then show ?thesis using g b u
      by (cases r) (simp add: reply_def Let_def)
  qed
qed

lemma reply_rebuilds:
  assumes "cacheBounded ss" "v \<noteq> []" "map_of ss v = None"
    and "length ss < MAX_SESSIONS \<or> (\<exists>(k, e) \<in> set ss. lastAccess e \<le> now)"
  shows "\<exists>e'. map_of (snd (reply bsp nKeys attempts now now2 v p ss)) v = Some e'
            \<and> systemInstruction e' = bsp p"
proof -
  obtain entry ss1 where g: "getEntry bsp now v p ss = (entry, ss1)"
    by (cases "getEntry bsp now v p ss")
  from assms(4) have "map_of ss v \<noteq> None \<or> length ss < MAX_SESSIONS
      \<or> (\<exists>(k, e) \<in> set ss. lastAccess e \<le> now)" by simp
  from getEntry_keeps [OF assms(1,2) this, of bsp p] g have m: "map_of ss1 v = Some entry" by simp
  from getEntry_miss_fst [OF assms(3), of bsp now p] g have s: "systemInstruction entry = bsp p"
    by simp
  show ?thesis
  proof (cases "tryKeys (if nKeys = 0 then 1 else nKeys) 0 attempts None")
    case (Inl err)
    then show ?thesis using g m s by (simp add: reply_def Let_def)
  next
    case (Inr r)
    then show ?thesis using g m s
      by (cases r) (simp add: reply_def Let_def update_conv')
  qed
qed

lemma other_ops_bounded:
  assumes "cacheBounded ss"
  shows "cacheBounded (session_reset k ss)" "cacheBounded (evictStale t ss)"
    "cacheBounded (session_resetAll ss)"
proof -
  have "length (AList.delete k ss) \<le> length ss" by (rule length_delete_le)
  moreover have "fst ` set (AList.delete k ss) \<subseteq> fst ` set ss" by (rule dom_delete_subset)
  ultimately show "cacheBounded (session_reset k ss)"
    using assms by (auto simp: cacheBounded_def session_reset_def distinct_delete)
  have l: "length (evictStale t ss) \<le> length ss" by (simp add: evictStale_def)
  have s: "set (evictStale t ss) \<subseteq> set ss" by (auto simp: evictStale_def)
  have d: "distinct (map fst (evictStale t ss))"
    using assms by (simp add: cacheBounded_def evictStale_def distinct_map_filter)
  from l s d assms show "cacheBounded (evictStale t ss)"
    by (auto simp: cacheBounded_def)
  show "cacheBounded (session_resetAll ss)" by (simp add: cacheBounded_def session_resetAll_def)
qed


text \<open>
  C7 (as amended). Let the cache be bounded (one entry per JID, at most 200 entries, none
  under the empty JID), and let the operations be called for non-empty JIDs. Then the
  cache is bounded after \<open>_getEntry\<close>, after \<open>reply\<close>, after \<open>reset\<close>, after
  \<open>resetAll\<close> and after \<open>_evictStale\<close>. \<open>_getEntry\<close> returns a present entry with its access
  time set to the clock, and creates an absent one fresh, with the system instruction
  built from the profile. When the entry is absent and the cache holds fewer than 200
  sessions, the new one is appended. When it holds 200, exactly one of the 201 sessions
  is removed, the first in insertion order among those with the least \<open>lastAccess\<close>: if
  some older session was last accessed no later than the new one is created (as under a
  clock that does not run backwards), that is an old session, never the new one; the
  evicted JID is then absent, and its next \<open>reply\<close>, at a clock not before the creation,
  leaves it in the cache with a system instruction built from the profile given to that
  reply. If every older session was last accessed after the clock reading of the
  creation, the new session is the one removed and the cache is left as it was.
\<close>

theorem session_cache_bounded:
  assumes "cacheBounded ss" and "j \<noteq> []"
  shows "cacheBounded (snd (getEntry bsp now j p ss))
   \<and> cacheBounded (snd (reply bsp nKeys attempts now now2 j p ss))
   \<and> cacheBounded (session_reset k ss)
   \<and> cacheBounded (evictStale t ss)
   \<and> cacheBounded (session_resetAll ss)
   \<and> (\<forall>e. map_of ss j = Some e \<longrightarrow>
         getEntry bsp now j p ss
           = (e\<lparr>lastAccess := now\<rparr>, AList.update j (e\<lparr>lastAccess := now\<rparr>) ss))
   \<and> (map_of ss j = None \<longrightarrow>
         fst (getEntry bsp now j p ss)
           = \<lparr>history = [], lastAccess = now, turnCount = 0, systemInstruction = bsp p\<rparr>)
   \<and> (map_of ss j = None \<longrightarrow> length ss < MAX_SESSIONS \<longrightarrow>
         snd (getEntry bsp now j p ss)
           = ss @ [(j, \<lparr>history = [], lastAccess = now, turnCount = 0,
                         systemInstruction = bsp p\<rparr>)])
   \<and> (map_of ss j = None \<longrightarrow> length ss = MAX_SESSIONS \<longrightarrow>
       (\<exists>(k, e0) \<in> set ss. lastAccess e0 \<le> now) \<longrightarrow>
         (\<exists>pre v e post. ss = pre @ (v, e) # post
            \<and> snd (getEntry bsp now j p ss)
                = pre @ post @ [(j, \<lparr>history = [], lastAccess = now, turnCount = 0,
                                      systemInstruction = bsp p\<rparr>)]
            \<and> (\<forall>(k, e') \<in> set pre. lastAccess e < lastAccess e')
            \<and> (\<forall>(k, e') \<in> set post. lastAccess e \<le> lastAccess e')
            \<and> v \<noteq> j \<and> map_of (snd (getEntry bsp now j p ss)) v = None
            \<and> (\<forall>now' now2 p' nKeys attempts. now \<le> now' \<longrightarrow>
                  (\<exists>e'. map_of (snd (reply bsp nKeys attempts now' now2 v p'
                                       (snd (getEntry bsp now j p ss)))) v = Some e'
                       \<and> systemInstruction e' = bsp p'))))
   \<and> (map_of ss j = None \<longrightarrow> length ss = MAX_SESSIONS \<longrightarrow>
       (\<forall>(k, e0) \<in> set ss. now < lastAccess e0) \<longrightarrow>
         snd (getEntry bsp now j p ss) = ss)
   \<and> (map_of ss j \<noteq> None \<or> length ss < MAX_SESSIONS
        \<or> (\<exists>(k, e0) \<in> set ss. lastAccess e0 \<le> now) \<longrightarrow>
         map_of (snd (getEntry bsp now j p ss)) j = Some (fst (getEntry bsp now j p ss)))"
proof -
  let ?new = "\<lparr>history = [], lastAccess = now, turnCount = 0, systemInstruction = bsp p\<rparr>"
  let ?ss' = "snd (getEntry bsp now j p ss)"
  from assms(1) have inv: "distinct (map fst ss)" "[] \<notin> fst ` set ss"
    by (simp_all add: cacheBounded_def)
  have c1: "cacheBounded ?ss'" using assms by (rule getEntry_bounded)
  have full: "\<exists>pre v e post. ss = pre @ (v, e) # post
            \<and> ?ss' = pre @ post @ [(j, ?new)]
            \<and> (\<forall>(k, e') \<in> set pre. lastAccess e < lastAccess e')
            \<and> (\<forall>(k, e') \<in> set post. lastAccess e \<le> lastAccess e')
            \<and> v \<noteq> j \<and> map_of ?ss' v = None
            \<and> (\<forall>now' now2 p' nKeys attempts. now \<le> now' \<longrightarrow>
                  (\<exists>e'. map_of (snd (reply bsp nKeys attempts now' now2 v p' ?ss')) v = Some e'
                       \<and> systemInstruction e' = bsp p'))"
    if none: "map_of ss j = None" and len: "length ss = MAX_SESSIONS"
      and ex: "\<exists>(k, e0) \<in> set ss. lastAccess e0 \<le> now"
  proof -
    from getEntry_miss_full [OF none len inv assms(2) ex, of bsp p]
    obtain pre v e post where h: "ss = pre @ (v, e) # post"
        "?ss' = pre @ post @ [(j, ?new)]"
        "\<forall>(k, e') \<in> set pre. lastAccess e < lastAccess e'"
        "\<forall>(k, e') \<in> set post. lastAccess e \<le> lastAccess e'"
      by (elim exE conjE)
    from none have nj: "j \<notin> fst ` set ss" by (simp add: map_of_eq_None_iff)
    have vk: "v \<in> fst ` set ss" unfolding h(1) by simp
    with nj have vj: "v \<noteq> j" by metis
    from vk inv(2) have ve: "v \<noteq> []" by metis
    from inv(1) have "v \<notin> fst ` set pre" "v \<notin> fst ` set post" unfolding h(1) by auto
    with vj have "v \<notin> fst ` set (pre @ post @ [(j, ?new)])" by auto
    then have "map_of (pre @ post @ [(j, ?new)]) v = None" by (rule map_of_eq_None_iff [THEN iffD2])
    then have vn: "map_of ?ss' v = None" by (simp only: h(2))
    have jn: "(j, ?new) \<in> set ?ss'" unfolding h(2) by simp
    have r: "\<exists>e'. map_of (snd (reply bsp nKeys attempts now' now2 v p' ?ss')) v = Some e'
                       \<and> systemInstruction e' = bsp p'"
      if "now \<le> now'" for now' now2 p' nKeys attempts
    proof -
      from jn that have "\<exists>(k, e) \<in> set ?ss'. lastAccess e \<le> now'" by force
      then have "length ?ss' < MAX_SESSIONS \<or> (\<exists>(k, e) \<in> set ?ss'. lastAccess e \<le> now')" ..
      from reply_rebuilds [OF c1 ve vn this] show ?thesis .
    qed
    have "ss = pre @ (v, e) # post
            \<and> ?ss' = pre @ post @ [(j, ?new)]
            \<and> (\<forall>(k, e') \<in> set pre. lastAccess e < lastAccess e')
            \<and> (\<forall>(k, e') \<in> set post. lastAccess e \<le> lastAccess e')
            \<and> v \<noteq> j \<and> map_of ?ss' v = None
            \<and> (\<forall>now' now2 p' nKeys attempts. now \<le> now' \<longrightarrow>
                  (\<exists>e'. map_of (snd (reply bsp nKeys attempts now' now2 v p' ?ss')) v = Some e'
                       \<and> systemInstruction e' = bsp p'))"
      using h vj vn r by (intro conjI allI impI)
    then show ?thesis by (intro exI)
  qed
  have c2: "cacheBounded (snd (reply bsp nKeys attempts now now2 j p ss))"
    using assms by (rule reply_bounded)
  have c3: "cacheBounded (session_reset k ss)" using assms(1) by (rule other_ops_bounded(1))
  have c4: "cacheBounded (evictStale t ss)" using assms(1) by (rule other_ops_bounded(2))
  have c5: "cacheBounded (session_resetAll ss)" using assms(1) by (rule other_ops_bounded(3))
  have c6: "\<forall>e. map_of ss j = Some e \<longrightarrow>
         getEntry bsp now j p ss
           = (e\<lparr>lastAccess := now\<rparr>, AList.update j (e\<lparr>lastAccess := now\<rparr>) ss)"
    using getEntry_hit [of ss j _ bsp now p] by blast
  have c7: "map_of ss j = None \<longrightarrow> fst (getEntry bsp now j p ss) = ?new"
    using getEntry_miss_fst [of ss j bsp now p] by blast
  have c8: "map_of ss j = None \<longrightarrow> length ss < MAX_SESSIONS \<longrightarrow> ?ss' = ss @ [(j, ?new)]"
    using getEntry_miss_room [of ss j bsp now p] by blast
  have c9: "map_of ss j = None \<longrightarrow> length ss = MAX_SESSIONS \<longrightarrow>
       (\<exists>(k, e0) \<in> set ss. lastAccess e0 \<le> now) \<longrightarrow>
         (\<exists>pre v e post. ss = pre @ (v, e) # post
            \<and> ?ss' = pre @ post @ [(j, ?new)]
            \<and> (\<forall>(k, e') \<in> set pre. lastAccess e < lastAccess e')
            \<and> (\<forall>(k, e') \<in> set post. lastAccess e \<le> lastAccess e')
            \<and> v \<noteq> j \<and> map_of ?ss' v = None
            \<and> (\<forall>now' now2 p' nKeys attempts. now \<le> now' \<longrightarrow>
                  (\<exists>e'. map_of (snd (reply bsp nKeys attempts now' now2 v p' ?ss')) v = Some e'
                       \<and> systemInstruction e' = bsp p')))"
    using full by (intro impI)
  have c10: "map_of ss j = None \<longrightarrow> length ss = MAX_SESSIONS \<longrightarrow>
       (\<forall>(k, e0) \<in> set ss. now < lastAccess e0) \<longrightarrow> ?ss' = ss"
    using getEntry_new_evicted [OF _ _ inv assms(2), of now bsp p] by (intro impI)
  have c11: "map_of ss j \<noteq> None \<or> length ss < MAX_SESSIONS
        \<or> (\<exists>(k, e0) \<in> set ss. lastAccess e0 \<le> now) \<longrightarrow>
         map_of ?ss' j = Some (fst (getEntry bsp now j p ss))"
    using getEntry_keeps [OF assms, of now bsp p] by (intro impI)
  from c1 c2 c3 c4 c5 c6 c7 c8 c9 c10 c11 show ?thesis by (intro conjI)
qed

lemma keys_sessions200: "map fst sessions200 = keys200"
  by (simp add: sessions200_def comp_def)

lemma distinct_keys200: "distinct keys200"
  by (simp add: keys200_def)

lemma length_keys200: "length keys200 = 200"
  by (simp add: keys200_def)

lemma new_not_key: "''new@c.us'' \<notin> set keys200" "[] \<notin> set keys200"
  by (simp_all add: keys200_def)

lemma sessions200_new_absent: "map_of sessions200 ''new@c.us'' = None"
proof -
  have "fst ` set sessions200 = set keys200" using keys_sessions200 by (metis set_map)
  with new_not_key(1) show ?thesis by (simp add: map_of_eq_None_iff)
qed

lemma sessions200_full: "length sessions200 = MAX_SESSIONS"
  using length_keys200 keys_sessions200 by (metis length_map MAX_SESSIONS_def)



lemma sessions200_access:
  "\<forall>(k, e) \<in> set sessions200. 500 \<le> lastAccess e \<and> (lastAccess e = 500 \<longrightarrow> k = ''Ah'')"
  by (auto simp: sessions200_def)

lemma Ah_in_sessions200: "''Ah'' \<in> fst ` set sessions200"
proof -
  have "''Ah'' \<in> set keys200" by (simp add: keys200_def)
  then show ?thesis using keys_sessions200 by (metis set_map)
qed

lemma sessions200_bounded: "cacheBounded sessions200"
proof -
  have "fst ` set sessions200 = set keys200" using keys_sessions200 by (metis set_map)
  moreover have "length sessions200 = 200" using length_keys200 keys_sessions200 by (metis length_map)
  ultimately show ?thesis
    using distinct_keys200 new_not_key(2)
    by (simp add: cacheBounded_def keys_sessions200 MAX_SESSIONS_def)
qed

lemma sessions200_later: "\<forall>(k, e) \<in> set sessions200. 100 < lastAccess e"
  by (auto simp: sessions200_def)

lemma set_tl_subset: "set (tl xs) \<subseteq> set xs"
  by (cases xs) auto

lemma sessions200e_facts:
  "map_of sessions200e ''new@c.us'' = None" "length sessions200e = MAX_SESSIONS"
  "\<forall>(k, e) \<in> set (tl sessions200). 100 \<le> lastAccess e"
proof -
  have s: "set (tl sessions200) \<subseteq> set sessions200" by (rule set_tl_subset)
  have "fst ` set sessions200 = set keys200" using keys_sessions200 by (metis set_map)
  with s new_not_key(1) have "''new@c.us'' \<notin> fst ` set (tl sessions200)" by auto
  then have "map_of (tl sessions200) ''new@c.us'' = None" by (simp add: map_of_eq_None_iff)
  then show "map_of sessions200e ''new@c.us'' = None" by (simp add: sessions200e_def)
  show "length sessions200e = MAX_SESSIONS" using sessions200_full by (simp add: sessions200e_def MAX_SESSIONS_def)
  from s sessions200_later show "\<forall>(k, e) \<in> set (tl sessions200). 100 \<le> lastAccess e" by force
qed

text \<open>
  C7 as stated fails in two ways. With the clock reading 100 of the creation behind every
  \<open>lastAccess\<close> of the full cache, the session evicted is the newly created one: the
  cache is left as it was. And with the oldest session stored under the empty JID, the
  guard \<open>if (oldestJid)\<close> skips the eviction, and the cache holds 201 sessions.
\<close>

theorem newest_session_evicted_counterexample:
  "length sessions200 = MAX_SESSIONS \<and> map_of sessions200 ''new@c.us'' = None
   \<and> snd (getEntry (\<lambda>p. p) 100 ''new@c.us'' ''profile'' sessions200) = sessions200
   \<and> length sessions200e = MAX_SESSIONS \<and> map_of sessions200e ''new@c.us'' = None
   \<and> length (snd (getEntry (\<lambda>p. p) 5000 ''new@c.us'' ''profile'' sessions200e)) = 201"
proof -
  from sessions200_bounded have inv: "distinct (map fst sessions200)" "[] \<notin> fst ` set sessions200"
    by (simp_all add: cacheBounded_def)
  have ne: "''new@c.us'' \<noteq> []" by simp
  have a: "snd (getEntry (\<lambda>p. p) 100 ''new@c.us'' ''profile'' sessions200) = sessions200"
    using getEntry_new_evicted [OF sessions200_new_absent sessions200_full inv ne sessions200_later] .
  let ?e0 = "\<lparr>history = [], lastAccess = 100, turnCount = 1, systemInstruction = ''old''\<rparr>"
  have m: "map_of (([], ?e0) # tl sessions200) ''new@c.us'' = None"
      "length (([], ?e0) # tl sessions200) = MAX_SESSIONS"
    using sessions200e_facts(1,2) by (simp_all add: sessions200e_def)
  have o: "\<forall>(k, e) \<in> set (tl sessions200). lastAccess ?e0 \<le> lastAccess e"
    using sessions200e_facts(3) by simp
  have l: "lastAccess ?e0 \<le> 5000" by simp
  have "snd (getEntry (\<lambda>p. p) 5000 ''new@c.us'' ''profile'' sessions200e)
      = ([], ?e0) # tl sessions200 @ [(''new@c.us'',
           \<lparr>history = [], lastAccess = 5000, turnCount = 0, systemInstruction = ''profile''\<rparr>)]"
    using getEntry_empty_jid_oldest [OF m o l, of "\<lambda>p. p" "''profile''"]
    by (simp only: sessions200e_def)
  then have b: "length (snd (getEntry (\<lambda>p. p) 5000 ''new@c.us'' ''profile'' sessions200e)) = 201"
    using m(2) by (simp add: MAX_SESSIONS_def)
  from sessions200_full sessions200_new_absent a sessions200e_facts(2,1) b show ?thesis by (intro conjI)
qed

theorem session_cache_bounded_witness:
  "cacheBounded sessions200 \<and> ''new@c.us'' \<noteq> []
   \<and> map_of sessions200 ''new@c.us'' = None \<and> length sessions200 = MAX_SESSIONS
   \<and> ''Ah'' \<in> fst ` set sessions200
   \<and> cacheBounded (snd (getEntry (\<lambda>p. p) 5000 ''new@c.us'' ''profile'' sessions200))
   \<and> map_of (snd (getEntry (\<lambda>p. p) 5000 ''new@c.us'' ''profile'' sessions200)) ''new@c.us''
       = Some \<lparr>history = [], lastAccess = 5000, turnCount = 0, systemInstruction = ''profile''\<rparr>
   \<and> map_of (snd (getEntry (\<lambda>p. p) 5000 ''new@c.us'' ''profile'' sessions200)) ''Ah'' = None
   \<and> (\<exists>e'. map_of (snd (reply (\<lambda>p. p) 1 (\<lambda>i. Answered ''hi'' [''turn'']) 6000 6001 ''Ah''
                         ''profile of Ah''
                         (snd (getEntry (\<lambda>p. p) 5000 ''new@c.us'' ''profile'' sessions200)))) ''Ah''
              = Some e'
            \<and> systemInstruction e' = ''profile of Ah'')
   \<and> snd (getEntry (\<lambda>p. p) 100 ''new@c.us'' ''profile'' sessions200) = sessions200
   \<and> cacheBounded (snd (reply (\<lambda>p. p) 1 (\<lambda>i. Answered ''hi'' [''turn'']) 5000 5001 ''new@c.us''
                         ''profile'' sessions200))
   \<and> cacheBounded (session_reset ''Ah'' sessions200)
   \<and> cacheBounded (evictStale 2000000 sessions200)"
proof -
  let ?ss' = "snd (getEntry (\<lambda>p. p) 5000 ''new@c.us'' ''profile'' sessions200)"
  have ne: "''new@c.us'' \<noteq> []" by simp
  note t = session_cache_bounded [OF sessions200_bounded ne,
      of "\<lambda>p. p" 5000 "''profile''" 1 "\<lambda>i. Answered ''hi'' [''turn'']" 5001 "''Ah''" 2000000]
  note u = session_cache_bounded [OF sessions200_bounded ne,
      of "\<lambda>p. p" 100 "''profile''" 1 "\<lambda>i. Answered ''hi'' [''turn'']" 5001 "''Ah''" 2000000]
  from Ah_in_sessions200 obtain a where a: "(''Ah'', a) \<in> set sessions200" by force
  have a5: "lastAccess a \<le> 500"
    using a by (auto simp: sessions200_def)
  then have ex: "\<exists>(k, e0) \<in> set sessions200. lastAccess e0 \<le> 5000" using a by force
  from t have c1: "cacheBounded ?ss'" by (rule conjunct1)
  note t2 = t [THEN conjunct2]
  from t2 have d1: "cacheBounded (snd (reply (\<lambda>p. p) 1 (\<lambda>i. Answered ''hi'' [''turn'']) 5000 5001
                         ''new@c.us'' ''profile'' sessions200))" by (rule conjunct1)
  note t3 = t2 [THEN conjunct2]
  from t3 have d2: "cacheBounded (session_reset ''Ah'' sessions200)" by (rule conjunct1)
  note t4 = t3 [THEN conjunct2]
  from t4 have d3: "cacheBounded (evictStale 2000000 sessions200)" by (rule conjunct1)
  note t7 = t4 [THEN conjunct2, THEN conjunct2, THEN conjunct2]
  have f: "fst (getEntry (\<lambda>p. p) 5000 ''new@c.us'' ''profile'' sessions200)
       = \<lparr>history = [], lastAccess = 5000, turnCount = 0, systemInstruction = ''profile''\<rparr>"
    using t7 [THEN conjunct1, THEN mp, OF sessions200_new_absent] .
  note t9 = t7 [THEN conjunct2, THEN conjunct2]
  note t11 = t9 [THEN conjunct2, THEN conjunct2]
  have "map_of sessions200 ''new@c.us'' \<noteq> None \<or> length sessions200 < MAX_SESSIONS
        \<or> (\<exists>(k, e0) \<in> set sessions200. lastAccess e0 \<le> 5000)"
    using ex by (intro disjI2)
  from t11 [THEN mp, OF this]
  have c2: "map_of ?ss' ''new@c.us''
       = Some \<lparr>history = [], lastAccess = 5000, turnCount = 0, systemInstruction = ''profile''\<rparr>"
    unfolding f .
  from t9 [THEN conjunct1, THEN mp, OF sessions200_new_absent, THEN mp, OF sessions200_full, THEN mp, OF ex]
  obtain pre v e post where h: "sessions200 = pre @ (v, e) # post"
      "\<forall>(k, e') \<in> set pre. lastAccess e < lastAccess e'"
      "\<forall>(k, e') \<in> set post. lastAccess e \<le> lastAccess e'"
      "map_of ?ss' v = None"
      "\<forall>now' now2 p' nKeys attempts. 5000 \<le> now' \<longrightarrow>
          (\<exists>e'. map_of (snd (reply (\<lambda>p. p) nKeys attempts now' now2 v p' ?ss')) v = Some e'
               \<and> systemInstruction e' = p')"
    by (elim exE conjE)
  have ve: "(v, e) \<in> set sessions200" unfolding h(1) by simp
  have lo: "500 \<le> lastAccess e" "lastAccess e = 500 \<longrightarrow> v = ''Ah''"
    using sessions200_access [rule_format, OF ve] by simp_all
  have "set sessions200 = set pre \<union> {(v, e)} \<union> set post" by (simp add: h(1))
  with a have "(''Ah'', a) \<in> set pre \<or> (''Ah'', a) = (v, e) \<or> (''Ah'', a) \<in> set post"
    by blast
  then have v: "v = ''Ah''"
  proof (elim disjE)
    assume "(''Ah'', a) \<in> set pre"
    with h(2) have "lastAccess e < lastAccess a" by blast
    with a5 lo(1) show ?thesis by simp
  next
    assume "(''Ah'', a) = (v, e)"
    then show ?thesis by simp
  next
    assume "(''Ah'', a) \<in> set post"
    with h(3) have "lastAccess e \<le> lastAccess a" by blast
    with a5 lo show ?thesis by simp
  qed
  have c3: "map_of ?ss' ''Ah'' = None" using h(4) unfolding v .
  have le: "(5000::int) \<le> 6000" by simp
  have c4: "\<exists>e'. map_of (snd (reply (\<lambda>p. p) 1 (\<lambda>i. Answered ''hi'' [''turn'']) 6000 6001 ''Ah''
                         ''profile of Ah'' ?ss')) ''Ah'' = Some e'
            \<and> systemInstruction e' = ''profile of Ah''"
    using h(5) [rule_format, of 6000 1 "\<lambda>i. Answered ''hi'' [''turn'']" 6001 "''profile of Ah''", OF le]
    unfolding v .
  have c5: "snd (getEntry (\<lambda>p. p) 100 ''new@c.us'' ''profile'' sessions200) = sessions200"
    using u [THEN conjunct2, THEN conjunct2, THEN conjunct2, THEN conjunct2, THEN conjunct2,
             THEN conjunct2, THEN conjunct2, THEN conjunct2, THEN conjunct2, THEN conjunct1,
             THEN mp, OF sessions200_new_absent, THEN mp, OF sessions200_full, THEN mp, OF sessions200_later] .
  from sessions200_bounded ne sessions200_new_absent sessions200_full Ah_in_sessions200 c1 c2 c3 c4 c5 d1 d2 d3
  show ?thesis by (intro conjI)
qed

section \<open>Properties of the resume sweep\<close>


























end
